theory Spec2Isabelle
  imports Main "HOL-Library.Word"
begin

unbundle bit_operations_syntax

section \<open>Logarithmic fixed point (PoorManFloat.cpp)\<close>

text \<open>
  \<^verbatim>\<open>pmf_logarithmic\<close> is a 16-bit signed integer holding \<open>log2(value) * 512\<close>.
  It is modelled as a \<open>16 word\<close>; where the source compares it as a signed
  number the model uses the signed orders \<open><s\<close> and \<open>\<le>s\<close>. The unsigned
  C types \<^verbatim>\<open>uint8_t\<close>, \<^verbatim>\<open>uint16_t\<close> and \<^verbatim>\<open>uint32_t\<close> are words of
  that width; a C conversion between widths is \<open>ucast\<close>.
\<close>

type_synonym pmf_logarithmic = "16 word"

subsection \<open>The two correction tables\<close>

definition log2_minus_x_plus_one_shifted_by_1 :: "8 word list" where
  "log2_minus_x_plus_one_shifted_by_1 =
  [
   0, 1, 2, 3, 3, 4, 5, 6, 7, 8, 8, 9, 10, 11, 11, 12,
   13, 13, 14, 15, 16, 16, 17, 18, 18, 19, 19, 20, 21, 21, 22, 22,
   23, 24, 24, 25, 25, 26, 26, 27, 27, 28, 28, 29, 29, 30, 30, 31,
   31, 31, 32, 32, 33, 33, 33, 34, 34, 34, 35, 35, 36, 36, 36, 37,
   37, 37, 37, 38, 38, 38, 39, 39, 39, 39, 40, 40, 40, 40, 40, 41,
   41, 41, 41, 41, 42, 42, 42, 42, 42, 42, 43, 43, 43, 43, 43, 43,
   43, 43, 43, 43, 44, 44, 44, 44, 44, 44, 44, 44, 44, 44, 44, 44,
   44, 44, 44, 44, 44, 44, 44, 44, 44, 44, 44, 44, 44, 44, 44, 44,
   44, 43, 43, 43, 43, 43, 43, 43, 43, 43, 42, 42, 42, 42, 42, 42,
   42, 41, 41, 41, 41, 41, 41, 40, 40, 40, 40, 40, 39, 39, 39, 39,
   39, 38, 38, 38, 38, 37, 37, 37, 37, 36, 36, 36, 36, 35, 35, 35,
   35, 34, 34, 34, 33, 33, 33, 32, 32, 32, 31, 31, 31, 30, 30, 30,
   29, 29, 29, 28, 28, 28, 27, 27, 26, 26, 26, 25, 25, 24, 24, 24,
   23, 23, 22, 22, 22, 21, 21, 20, 20, 19, 19, 19, 18, 18, 17, 17,
   16, 16, 15, 15, 14, 14, 14, 13, 13, 12, 12, 11, 11, 10, 10, 9,
   9, 8, 8, 7, 6, 6, 5, 5, 4, 4, 3, 3, 2, 2, 1, 1
  ]"

definition x_minus_pow2_of_x_minus_one_shifted_by_1 :: "8 word list" where
  "x_minus_pow2_of_x_minus_one_shifted_by_1 =
  [
   0, 1, 1, 2, 2, 3, 4, 4, 5, 5, 6, 7, 7, 8, 8, 9,
   9, 10, 10, 11, 12, 12, 13, 13, 14, 14, 15, 15, 16, 16, 17, 17,
   18, 18, 19, 19, 20, 20, 21, 21, 21, 22, 22, 23, 23, 24, 24, 25,
   25, 25, 26, 26, 27, 27, 27, 28, 28, 29, 29, 29, 30, 30, 30, 31,
   31, 31, 32, 32, 32, 33, 33, 33, 34, 34, 34, 35, 35, 35, 36, 36,
   36, 36, 37, 37, 37, 38, 38, 38, 38, 38, 39, 39, 39, 39, 40, 40,
   40, 40, 40, 41, 41, 41, 41, 41, 41, 42, 42, 42, 42, 42, 42, 42,
   43, 43, 43, 43, 43, 43, 43, 43, 43, 44, 44, 44, 44, 44, 44, 44,
   44, 44, 44, 44, 44, 44, 44, 44, 44, 44, 44, 44, 44, 44, 44, 44,
   44, 44, 44, 44, 44, 44, 43, 43, 43, 43, 43, 43, 43, 43, 43, 43,
   42, 42, 42, 42, 42, 42, 41, 41, 41, 41, 41, 41, 40, 40, 40, 40,
   39, 39, 39, 39, 38, 38, 38, 38, 37, 37, 37, 37, 36, 36, 36, 35,
   35, 35, 34, 34, 34, 33, 33, 32, 32, 32, 31, 31, 30, 30, 30, 29,
   29, 28, 28, 27, 27, 27, 26, 26, 25, 25, 24, 24, 23, 23, 22, 22,
   21, 20, 20, 19, 19, 18, 18, 17, 16, 16, 15, 15, 14, 13, 13, 12,
   11, 11, 10, 9, 9, 8, 7, 7, 6, 5, 5, 4, 3, 2, 2, 1
  ]"

subsection \<open>Integer to logarithm\<close>

text \<open>
  The common tail of \<^verbatim>\<open>pmfl_from(uint8_t)\<close>: \<open>res\<close> is
  \<open>0000_0eee_mmmm_mmmm\<close>; the low byte indexes the table, \<open>res\<close> is shifted
  left by one and the table value is added.
\<close>

definition pmfl_from_u8_tail :: "16 word \<Rightarrow> pmf_logarithmic" where
  "pmfl_from_u8_tail res =
     (let index = (ucast (res AND 0x00ff) :: 8 word);
          offset = log2_minus_x_plus_one_shifted_by_1 ! unat index
      in push_bit 1 res + ucast offset)"

definition pmfl_from_u8 :: "8 word \<Rightarrow> pmf_logarithmic" where
  "pmfl_from_u8 x =
     (if x AND 0xf0 = 0 then
        (if x AND 0x0c = 0 then
           (if x AND 0x02 = 0 then
              (if x = 0 then 0x8000 else pmfl_from_u8_tail 0x0000)
            else pmfl_from_u8_tail (ucast (push_bit 7 x :: 8 word) OR 0x0100))
         else
           (if x AND 0x08 = 0 then pmfl_from_u8_tail (ucast (push_bit 6 x :: 8 word) OR 0x0200)
            else pmfl_from_u8_tail (ucast (push_bit 5 x :: 8 word) OR 0x0300)))
      else
        (if x AND 0xc0 = 0 then
           (if x AND 0x20 = 0 then pmfl_from_u8_tail (ucast (push_bit 4 x :: 8 word) OR 0x0400)
            else pmfl_from_u8_tail (ucast (push_bit 3 x :: 8 word) OR 0x0500))
         else
           (if x AND 0x80 = 0 then pmfl_from_u8_tail (ucast (push_bit 2 x :: 8 word) OR 0x0600)
            else pmfl_from_u8_tail (ucast (push_bit 1 x :: 8 word) OR 0x0700))))"

text \<open>
  The tail of \<^verbatim>\<open>pmfl_from(uint16_t)\<close>: \<open>x\<close> has been normalised to ten
  bits and \<open>exponent\<close> is the position of its leading one.
\<close>

definition pmfl_from_u16_tail :: "16 word \<Rightarrow> 8 word \<Rightarrow> pmf_logarithmic" where
  "pmfl_from_u16_tail x exponent =
     (let index = (ucast (drop_bit 1 x) :: 8 word);
          offset = log2_minus_x_plus_one_shifted_by_1 ! unat index
      in x + ucast offset - 0x200 + push_bit 9 (ucast exponent :: 16 word))"

definition pmfl_from_u16 :: "16 word \<Rightarrow> pmf_logarithmic" where
  "pmfl_from_u16 x =
     (if x AND 0xff00 = 0 then pmfl_from_u8 (ucast x)
      else if x AND 0xf000 \<noteq> 0 then
        (if x AND 0xc000 \<noteq> 0 then
           (if x AND 0x8000 \<noteq> 0 then pmfl_from_u16_tail (drop_bit 6 x) 15
            else pmfl_from_u16_tail (drop_bit 5 x) 14)
         else
           (if x AND 0x2000 \<noteq> 0 then pmfl_from_u16_tail (drop_bit 4 x) 13
            else pmfl_from_u16_tail (drop_bit 3 x) 12))
      else
        (if x AND 0x0c00 \<noteq> 0 then
           (if x AND 0x0800 \<noteq> 0 then pmfl_from_u16_tail (drop_bit 2 x) 11
            else pmfl_from_u16_tail (drop_bit 1 x) 10)
         else
           (if x AND 0x0200 \<noteq> 0 then pmfl_from_u16_tail x 9
            else pmfl_from_u16_tail (push_bit 1 x) 8)))"

definition pmfl_from_u32 :: "32 word \<Rightarrow> pmf_logarithmic" where
  "pmfl_from_u32 x =
     (if x AND 0xffff0000 = 0 then pmfl_from_u16 (ucast x)
      else if x AND 0xff000000 = 0 then
        (let w = (ucast (drop_bit 8 x) :: 16 word) in pmfl_from_u16 w + 0x1000)
      else
        (let w = (ucast (drop_bit 16 x) :: 16 word) in pmfl_from_u16 w + 0x2000))"

subsection \<open>Arithmetic in log space\<close>

definition pmfl_shl :: "pmf_logarithmic \<Rightarrow> 8 word \<Rightarrow> pmf_logarithmic" where
  "pmfl_shl x n = x + push_bit 9 (ucast n :: 16 word)"

definition pmfl_shr :: "pmf_logarithmic \<Rightarrow> 8 word \<Rightarrow> pmf_logarithmic" where
  "pmfl_shr x n = x - push_bit 9 (ucast n :: 16 word)"

definition pmfl_multiply :: "pmf_logarithmic \<Rightarrow> pmf_logarithmic \<Rightarrow> pmf_logarithmic" where
  "pmfl_multiply x y = x + y"

definition pmfl_reciprocal :: "pmf_logarithmic \<Rightarrow> pmf_logarithmic" where
  "pmfl_reciprocal x = - x"

definition pmfl_square :: "pmf_logarithmic \<Rightarrow> pmf_logarithmic" where
  "pmfl_square x =
     (if 0x4000 \<le>s x then 0x7fff
      else if x \<le>s - 0x4000 then 0x8001
      else x + x)"

definition pmfl_rsquare :: "pmf_logarithmic \<Rightarrow> pmf_logarithmic" where
  "pmfl_rsquare x = pmfl_reciprocal (pmfl_square x)"

definition pmfl_divide :: "pmf_logarithmic \<Rightarrow> pmf_logarithmic \<Rightarrow> pmf_logarithmic" where
  "pmfl_divide x y = x - y"

subsection \<open>Logarithm to integer\<close>

definition pmfl_to_u16 :: "pmf_logarithmic \<Rightarrow> 16 word" where
  "pmfl_to_u16 x =
     (if x <s 0 then 0
      else if 0x2000 \<le>s x then 0xffff
      else
        (let exponent = (ucast (drop_bit 9 x) :: 8 word);
             x1 = x AND 0x01ff;
             index = (ucast (drop_bit 1 x1) :: 8 word);
             offset = x_minus_pow2_of_x_minus_one_shifted_by_1 ! unat index;
             x2 = x1 + 0x200;
             x3 = x2 - ucast offset
         in if 9 < exponent then push_bit (unat exponent - 9) x3
            else if exponent < 9 then signed_drop_bit (9 - unat exponent) (x3 + 1)
            else x3))"

definition pmfl_to_u32 :: "pmf_logarithmic \<Rightarrow> 32 word" where
  "pmfl_to_u32 x =
     (if x <s 0 then 0
      else if 0x4000 \<le>s x then 0xffffffff
      else
        (let exponent = (ucast (drop_bit 9 x) :: 8 word)
         in if exponent < 0x10 then ucast (pmfl_to_u16 x)
            else
              (let shift = exponent - 0x0f;
                   x' = pmfl_shr x shift;
                   res = (ucast (pmfl_to_u16 x') :: 32 word)
               in push_bit (unat shift) res)))"
subsection \<open>The conversions on natural numbers\<close>

text \<open>The entries of the two tables as natural numbers.\<close>

definition lg :: "nat \<Rightarrow> nat" where
  "lg i = unat (log2_minus_x_plus_one_shifted_by_1 ! i)"

definition ex :: "nat \<Rightarrow> nat" where
  "ex i = unat (x_minus_pow2_of_x_minus_one_shifted_by_1 ! i)"

text \<open>
  The mantissa that the conversions to integers rebuild from the fraction \<open>f\<close> of a
  logarithm (the value of \<^verbatim>\<open>x\<close> before the final shift), and the result of the
  shift by the exponent \<open>E\<close>.
\<close>

definition expval :: "nat \<Rightarrow> nat" where
  "expval f = f + 512 - ex (f div 2)"

definition antilog :: "nat \<Rightarrow> nat \<Rightarrow> nat" where
  "antilog E f =
     (if 9 < E then expval f * 2 ^ (E - 9)
      else if E < 9 then (expval f + 1) div 2 ^ (9 - E)
      else expval f)"

text \<open>
  The fraction of the logarithm of a ten-bit mantissa \<open>m\<close>, the ten-bit
  mantissa of a number \<open>n\<close> whose leading one is at position \<open>e\<close>, and the
  mantissa that comes back from the logarithm of \<open>m\<close>.
\<close>

definition l0 :: "nat \<Rightarrow> nat" where
  "l0 m = (m - 512) + lg (m div 2 - 256)"

definition mant :: "nat \<Rightarrow> nat \<Rightarrow> nat" where
  "mant e n = (if e < 9 then n * 2 ^ (9 - e) else n div 2 ^ (e - 9))"

definition remant :: "nat \<Rightarrow> nat" where
  "remant m = (if l0 m < 512 then expval (l0 m) else 1024)"

text \<open>
  A check of the two tables against each other, entry by entry: \<open>i\<close> is the
  index into the first table, \<open>t\<close> its entry and \<open>us\<close> the second table from
  index \<open>i\<close> on. The first part is for the even mantissa \<open>512 + 2 * i\<close>, the
  second for the odd one.
\<close>

definition entry_ok :: "nat \<Rightarrow> nat \<Rightarrow> nat list \<Rightarrow> bool" where
  "entry_ok i t us \<longleftrightarrow>
     i + t div 2 < 256 \<and> 2 * i + t < 512 \<and>
     (let u = us ! (t div 2)
      in u \<le> t + 1 \<and> t \<le> u + 1 \<and> 255 * (514 + 2 * i) \<le> 256 * (512 + 2 * i + t - u)) \<and>
     (if i + (t + 1) div 2 < 256
      then 2 * i + 1 + t < 512 \<and> (let u = us ! ((t + 1) div 2) in u \<le> t + 1 \<and> t \<le> u + 1)
      else i = 255 \<and> t = 1)"

fun tables_ok :: "nat \<Rightarrow> nat list \<Rightarrow> nat list \<Rightarrow> bool" where
  "tables_ok i [] us = True"
| "tables_ok i (t # ts) us = (entry_ok i t us \<and> tables_ok (i + 1) ts (tl us))"

definition lgs :: "nat list" where
  "lgs = map unat log2_minus_x_plus_one_shifted_by_1"

definition exs :: "nat list" where
  "exs = map unat x_minus_pow2_of_x_minus_one_shifted_by_1"
section \<open>Ramp generator (RampGenerator.cpp)\<close>

subsection \<open>State\<close>

text \<open>
  The structures are declared in \<^verbatim>\<open>RampGenerator.h\<close>; the records below hold the
  members that \<^verbatim>\<open>RampGenerator.cpp\<close> reads or writes. \<^verbatim>\<open>apply\<close> is a
  reserved word here, so the member is called \<open>apply_flag\<close>; \<open>p_accel\<close> is the
  place where the parameter set keeps the acceleration.
\<close>

record ramp_parameters =
  target_pos :: "32 word"
  min_travel_ticks :: "32 word"
  p_accel :: "32 word"
  keep_running :: bool
  keep_running_count_up :: bool
  any_change :: bool
  recalc_ramp_steps :: bool
  apply_flag :: bool

record ramp_config =
  parameters :: ramp_parameters

record ramp_ro =
  config :: ramp_config
  force_stop :: bool

record ramp_rw =
  ramp_state :: "8 word"
  curr_ticks :: "32 word"
  performed_ramp_up_steps :: "32 word"
  pause_ticks_left :: "32 word"

text \<open>The members \<^verbatim>\<open>_parameters\<close>, \<^verbatim>\<open>_ro\<close> and \<^verbatim>\<open>_rw\<close> of the class.\<close>

record RampGenerator =
  acceleration :: "32 word"
  rg_parameters :: ramp_parameters
  rg_ro :: ramp_ro
  rg_rw :: ramp_rw

record queue_end_s =
  pos :: "32 word"

record stepper_command_s =
  ticks :: "32 word"
  steps :: "8 word"
  state :: "8 word"
  count_up :: bool

record NextCommand =
  command :: stepper_command_s
  rw :: ramp_rw

subsection \<open>What the header declares\<close>

text \<open>
  \<^verbatim>\<open>RampGenerator.cpp\<close> calls helpers and uses macros that \<^verbatim>\<open>RampGenerator.h\<close>
  declares. They are parameters of the model: every function below takes a
  \<open>ramp_header\<close> and the theorems hold for each one. A helper that is a method
  of one structure maps that structure to its new value; \<^verbatim>\<open>_getNextCommand\<close>
  receives pointers to \<^verbatim>\<open>_ro\<close>, \<^verbatim>\<open>_rw\<close> and the command and may write to
  all three.
\<close>

record ramp_header =
  MOVE_OK :: "8 word"
  RAMP_STATE_ACCELERATING_FLAG :: "8 word"
  RAMP_STATE_DECELERATING_FLAG :: "8 word"
  RAMP_DIRECTION_MASK :: "8 word"
  RAMP_DIRECTION_COUNT_UP :: "8 word"
  RAMP_DIRECTION_COUNT_DOWN :: "8 word"
  checkValidConfig :: "ramp_parameters \<Rightarrow> 8 word"
  setTargetPosition :: "32 word \<Rightarrow> ramp_parameters \<Rightarrow> ramp_parameters"
  applyParameters :: "ramp_parameters \<Rightarrow> ramp_parameters"
  update_config :: "ramp_config \<Rightarrow> ramp_config"
  clearImmediateStop :: "ramp_ro \<Rightarrow> ramp_ro"
  isImmediateStopInitiated :: "ramp_ro \<Rightarrow> bool"
  isImmediateStopIncomplete :: "ramp_ro \<Rightarrow> bool"
  startRampIfNotRunning :: "ramp_rw \<Rightarrow> ramp_rw"
  rw_stopRamp :: "ramp_rw \<Rightarrow> ramp_rw"
  rampState :: "ramp_rw \<Rightarrow> 8 word"
  isRampGeneratorActive :: "RampGenerator \<Rightarrow> bool"
  getNextCommand_inner ::
    "ramp_ro \<Rightarrow> ramp_rw \<Rightarrow> queue_end_s \<Rightarrow> NextCommand \<Rightarrow> ramp_ro \<times> ramp_rw \<times> NextCommand"

subsection \<open>setAcceleration\<close>

text \<open>
  Modelled from the spec: \<^verbatim>\<open>ramp_parameters_s::setAcceleration\<close> is defined in
  \<^verbatim>\<open>RampGenerator.h\<close>. Section 4.2 of the specification says that it stores the
  value and marks the parameter set dirty; the dirty mark is \<open>any_change\<close>.
\<close>

definition params_setAcceleration :: "32 word \<Rightarrow> ramp_parameters \<Rightarrow> ramp_parameters" where
  "params_setAcceleration accel p = p\<lparr>p_accel := accel, any_change := True\<rparr>"

text \<open>\<^verbatim>\<open>RampGenerator::setAcceleration\<close>: the status and the new state.\<close>

definition setAcceleration :: "32 word \<Rightarrow> RampGenerator \<Rightarrow> 8 word \<times> RampGenerator" where
  "setAcceleration accel g =
     (if accel \<le>s 0 then (- 1, g)
      else (0, g\<lparr>acceleration := accel,
                 rg_parameters := params_setAcceleration accel (rg_parameters g)\<rparr>))"

subsection \<open>Starting a move\<close>

text \<open>\<^verbatim>\<open>RampGenerator::_startMove\<close>.\<close>

definition startMove ::
  "ramp_header \<Rightarrow> 32 word \<Rightarrow> bool \<Rightarrow> RampGenerator \<Rightarrow> 8 word \<times> RampGenerator" where
  "startMove H target position_changed g =
     (let res = checkValidConfig H (rg_parameters g)
      in if res \<noteq> MOVE_OK H then (res, g)
         else
           (let p1 = setTargetPosition H target (rg_parameters g);
                ro1 = (rg_ro g)\<lparr>force_stop := False\<rparr>;
                p2 = p1\<lparr>keep_running := False\<rparr>;
                p3 = p2\<lparr>keep_running_count_up := True\<rparr>;
                p4 = applyParameters H p3;
                rw1 = (if position_changed then startRampIfNotRunning H (rg_rw g)
                       else rg_rw g)
            in (MOVE_OK H, g\<lparr>rg_parameters := p4, rg_ro := ro1, rg_rw := rw1\<rparr>)))"

text \<open>
  The position that \<^verbatim>\<open>moveTo\<close> and \<^verbatim>\<open>move\<close> compare the new target with
  (the local \<^verbatim>\<open>curr_pos\<close>): the applied target while a ramp to a position is
  running, the end of the queue otherwise.
\<close>

definition curr_pos :: "ramp_header \<Rightarrow> queue_end_s \<Rightarrow> RampGenerator \<Rightarrow> 32 word" where
  "curr_pos H queue_end g =
     (if isRampGeneratorActive H g \<and> \<not> keep_running (parameters (config (rg_ro g)))
      then target_pos (parameters (config (rg_ro g)))
      else pos queue_end)"

text \<open>
  \<^verbatim>\<open>RampGenerator::moveTo\<close>. \<^verbatim>\<open>inject_fill_interrupt\<close> has an empty body
  (tests/test_01.cpp).
\<close>

definition moveTo ::
  "ramp_header \<Rightarrow> 32 word \<Rightarrow> queue_end_s \<Rightarrow> RampGenerator \<Rightarrow> 8 word \<times> RampGenerator" where
  "moveTo H position queue_end g =
     (let c = curr_pos H queue_end g
      in startMove H position (c \<noteq> position) g)"

definition move ::
  "ramp_header \<Rightarrow> 32 word \<Rightarrow> queue_end_s \<Rightarrow> RampGenerator \<Rightarrow> 8 word \<times> RampGenerator" where
  "move H delta queue_end g =
     (let c = curr_pos H queue_end g;
          new_pos = c + delta
      in startMove H new_pos (c \<noteq> new_pos) g)"

definition advanceTargetPosition ::
  "ramp_header \<Rightarrow> 32 word \<Rightarrow> queue_end_s \<Rightarrow> RampGenerator \<Rightarrow> RampGenerator" where
  "advanceTargetPosition H delta queue g =
     (if isRampGeneratorActive H g \<and> \<not> keep_running (parameters (config (rg_ro g)))
      then
        (let new_pos = target_pos (parameters (config (rg_ro g))) + delta
         in snd (startMove H new_pos True g))
      else g)"

subsection \<open>Producing the next command\<close>

text \<open>
  The first statement of \<^verbatim>\<open>getNextCommand\<close>: when \<^verbatim>\<open>_parameters.apply\<close> is
  set, the parameters are copied to \<^verbatim>\<open>_ro.config.parameters\<close>, the three flags of
  \<^verbatim>\<open>_parameters\<close> are cleared and \<^verbatim>\<open>_ro.config.update()\<close> runs.
\<close>

definition apply_handshake :: "ramp_header \<Rightarrow> RampGenerator \<Rightarrow> RampGenerator" where
  "apply_handshake H g =
     (if apply_flag (rg_parameters g) then
        (let ro1 = (rg_ro g)\<lparr>config := (config (rg_ro g))\<lparr>parameters := rg_parameters g\<rparr>\<rparr>;
             p1 = (rg_parameters g)\<lparr>apply_flag := False\<rparr>;
             p2 = p1\<lparr>any_change := False\<rparr>;
             p3 = p2\<lparr>recalc_ramp_steps := False\<rparr>;
             ro2 = ro1\<lparr>config := update_config H (config ro1)\<rparr>
         in g\<lparr>rg_parameters := p3, rg_ro := ro2\<rparr>)
      else g)"

definition getNextCommand ::
  "ramp_header \<Rightarrow> queue_end_s \<Rightarrow> NextCommand \<Rightarrow> RampGenerator \<Rightarrow> RampGenerator \<times> NextCommand" where
  "getNextCommand H queue_end cmd g =
     (let g1 = apply_handshake H g;
          qe = queue_end;
          ro1 = clearImmediateStop H (rg_ro g1)
      in if isImmediateStopInitiated H ro1 then
           (g1\<lparr>rg_ro := clearImmediateStop H ro1\<rparr>,
            cmd\<lparr>command := (command cmd)\<lparr>ticks := 0\<rparr>, rw := rw_stopRamp H (rw cmd)\<rparr>)
         else
           (let g2 = (if isImmediateStopIncomplete H ro1
                      then g1\<lparr>rg_rw := rw_stopRamp H (rg_rw g1),
                              rg_ro := clearImmediateStop H ro1\<rparr>
                      else g1\<lparr>rg_ro := ro1\<rparr>)
            in case getNextCommand_inner H (rg_ro g2) (rg_rw g2) qe cmd of
                 (ro3, rw3, cmd3) \<Rightarrow> (g2\<lparr>rg_ro := ro3, rg_rw := rw3\<rparr>, cmd3)))"

definition stopRamp :: "ramp_header \<Rightarrow> RampGenerator \<Rightarrow> RampGenerator" where
  "stopRamp H g = g\<lparr>rg_rw := rw_stopRamp H (rg_rw g)\<rparr>"

definition afterCommandEnqueued :: "NextCommand \<Rightarrow> RampGenerator \<Rightarrow> RampGenerator" where
  "afterCommandEnqueued cmd g = g\<lparr>rg_rw := rw cmd\<rparr>"

subsection \<open>The current acceleration\<close>

definition getCurrentAcceleration :: "ramp_header \<Rightarrow> RampGenerator \<Rightarrow> 32 word" where
  "getCurrentAcceleration H g =
     (let s = rampState H (rg_rw g) AND
                (RAMP_STATE_ACCELERATING_FLAG H OR RAMP_STATE_DECELERATING_FLAG H OR
                 RAMP_DIRECTION_MASK H)
      in if s = (RAMP_STATE_ACCELERATING_FLAG H OR RAMP_DIRECTION_COUNT_UP H) \<or>
            s = (RAMP_STATE_DECELERATING_FLAG H OR RAMP_DIRECTION_COUNT_DOWN H)
         then acceleration g
         else if s = (RAMP_STATE_DECELERATING_FLAG H OR RAMP_DIRECTION_COUNT_UP H) \<or>
                 s = (RAMP_STATE_ACCELERATING_FLAG H OR RAMP_DIRECTION_COUNT_DOWN H)
         then - acceleration g
         else 0)"
subsection \<open>Reading the ramp state\<close>

text \<open>
  The switch of \<^verbatim>\<open>getCurrentAcceleration\<close> looks at three groups of bits of
  the ramp state. A state is accelerating when, of the two phase flags, exactly
  the accelerating one is set, and decelerating likewise; its direction is what
  the direction mask leaves.
\<close>

definition ramp_accelerating :: "ramp_header \<Rightarrow> 8 word \<Rightarrow> bool" where
  "ramp_accelerating H s \<longleftrightarrow>
     s AND (RAMP_STATE_ACCELERATING_FLAG H OR RAMP_STATE_DECELERATING_FLAG H) =
       RAMP_STATE_ACCELERATING_FLAG H"

definition ramp_decelerating :: "ramp_header \<Rightarrow> 8 word \<Rightarrow> bool" where
  "ramp_decelerating H s \<longleftrightarrow>
     s AND (RAMP_STATE_ACCELERATING_FLAG H OR RAMP_STATE_DECELERATING_FLAG H) =
       RAMP_STATE_DECELERATING_FLAG H"

definition ramp_counting_up :: "ramp_header \<Rightarrow> 8 word \<Rightarrow> bool" where
  "ramp_counting_up H s \<longleftrightarrow> s AND RAMP_DIRECTION_MASK H = RAMP_DIRECTION_COUNT_UP H"

definition ramp_counting_down :: "ramp_header \<Rightarrow> 8 word \<Rightarrow> bool" where
  "ramp_counting_down H s \<longleftrightarrow> s AND RAMP_DIRECTION_MASK H = RAMP_DIRECTION_COUNT_DOWN H"

text \<open>What the theorems need of the macro values.\<close>

definition header_flags_ok :: "ramp_header \<Rightarrow> bool" where
  "header_flags_ok H \<longleftrightarrow>
     (RAMP_STATE_ACCELERATING_FLAG H OR RAMP_STATE_DECELERATING_FLAG H) AND RAMP_DIRECTION_MASK H = 0 \<and>
     RAMP_DIRECTION_COUNT_UP H AND RAMP_DIRECTION_MASK H = RAMP_DIRECTION_COUNT_UP H \<and>
     RAMP_DIRECTION_COUNT_DOWN H AND RAMP_DIRECTION_MASK H = RAMP_DIRECTION_COUNT_DOWN H \<and>
     RAMP_STATE_ACCELERATING_FLAG H \<noteq> RAMP_STATE_DECELERATING_FLAG H \<and>
     RAMP_DIRECTION_COUNT_UP H \<noteq> RAMP_DIRECTION_COUNT_DOWN H"

subsection \<open>A concrete header and concrete states\<close>

text \<open>
  One header that fits the declarations, for evaluating the functions at
  concrete inputs: idle is the ramp state \<open>0\<close>, the flags are single bits.
\<close>

definition sample_header :: ramp_header where
  "sample_header =
     \<lparr>MOVE_OK = 0,
      RAMP_STATE_ACCELERATING_FLAG = 2,
      RAMP_STATE_DECELERATING_FLAG = 4,
      RAMP_DIRECTION_MASK = 96,
      RAMP_DIRECTION_COUNT_UP = 32,
      RAMP_DIRECTION_COUNT_DOWN = 64,
      checkValidConfig = (\<lambda>p. if p_accel p = 0 then 0xff else 0),
      setTargetPosition = (\<lambda>t p. p\<lparr>target_pos := t, any_change := True\<rparr>),
      applyParameters = (\<lambda>p. p\<lparr>apply_flag := True\<rparr>),
      update_config = (\<lambda>c. c),
      clearImmediateStop = (\<lambda>r. r),
      isImmediateStopInitiated = (\<lambda>r. False),
      isImmediateStopIncomplete = (\<lambda>r. False),
      startRampIfNotRunning =
        (\<lambda>r. if ramp_state r = 0
             then r\<lparr>ramp_state := 2, curr_ticks := 0xffffffff, performed_ramp_up_steps := 0\<rparr>
             else r),
      rw_stopRamp = (\<lambda>r. r\<lparr>ramp_state := 0\<rparr>),
      rampState = ramp_state,
      isRampGeneratorActive = (\<lambda>g. ramp_state (rg_rw g) \<noteq> 0),
      getNextCommand_inner = (\<lambda>ro rw1 qe c. (ro, rw1, c\<lparr>rw := rw1\<rparr>))\<rparr>"

definition sample_parameters :: ramp_parameters where
  "sample_parameters =
     \<lparr>target_pos = 1000, min_travel_ticks = 4000, p_accel = 100,
      keep_running = False, keep_running_count_up = True,
      any_change = False, recalc_ramp_steps = False, apply_flag = False\<rparr>"

definition sample_generator :: "8 word \<Rightarrow> RampGenerator" where
  "sample_generator s =
     \<lparr>acceleration = 100,
      rg_parameters = sample_parameters,
      rg_ro = \<lparr>config = \<lparr>parameters = sample_parameters\<rparr>, force_stop = False\<rparr>,
      rg_rw = \<lparr>ramp_state = s, curr_ticks = 5000, performed_ramp_up_steps = 7,
               pause_ticks_left = 0\<rparr>\<rparr>"

definition sample_pending :: RampGenerator where
  "sample_pending =
     (sample_generator 34)\<lparr>rg_parameters :=
        sample_parameters\<lparr>target_pos := 2000, any_change := True, apply_flag := True\<rparr>\<rparr>"

definition sample_keep_running :: RampGenerator where
  "sample_keep_running =
     (sample_generator 34)\<lparr>rg_ro :=
        \<lparr>config = \<lparr>parameters = sample_parameters\<lparr>keep_running := True\<rparr>\<rparr>,
         force_stop = False\<rparr>\<rparr>"

definition sample_command :: NextCommand where
  "sample_command =
     \<lparr>command = \<lparr>ticks = 0, steps = 0, state = 0, count_up = True\<rparr>,
      rw = \<lparr>ramp_state = 0, curr_ticks = 0, performed_ramp_up_steps = 0, pause_ticks_left = 0\<rparr>\<rparr>"
section \<open>From words to numbers\<close>

subsection \<open>Bit tests as comparisons\<close>

lemma and_window_eq_0:
  fixes x :: "'a::len word"
  shows "x AND push_bit j (mask k) = 0 \<longleftrightarrow> unat x div 2 ^ j mod 2 ^ k = 0"
proof -
  have "x AND push_bit j (mask k) = 0 \<longleftrightarrow> (\<forall>n. \<not> (bit x n \<and> j \<le> n \<and> n - j < k))"
  proof -
    have "n < LENGTH('a) \<and> n - j < LENGTH('a)" if "bit x n" for n
      using bit_imp_le_length [OF that] by simp
    then show ?thesis
      by (auto simp add: bit_eq_iff bit_simps)
  qed
  also have "\<dots> \<longleftrightarrow> (\<forall>n<k. \<not> bit x (j + n))"
    by (metis add_diff_cancel_left' le_add1 le_add_diff_inverse)
  also have "\<dots> \<longleftrightarrow> take_bit k (drop_bit j (unat x)) = 0"
    by (auto simp add: bit_eq_iff bit_simps bit_unsigned_iff dest: bit_imp_le_length)
  finally show ?thesis
    by (simp add: take_bit_eq_mod drop_bit_eq_div)
qed

lemma tests16:
  fixes x :: "16 word"
  shows "x AND 0xff00 = 0 \<longleftrightarrow> unat x < 256"
    and "x AND 0xf000 = 0 \<longleftrightarrow> unat x < 4096"
    and "x AND 0xc000 = 0 \<longleftrightarrow> unat x < 16384"
    and "x AND 0x8000 = 0 \<longleftrightarrow> unat x < 32768"
    and "x AND 0x2000 = 0 \<longleftrightarrow> unat x div 8192 mod 2 = 0"
    and "x AND 0x0c00 = 0 \<longleftrightarrow> unat x div 1024 mod 4 = 0"
    and "x AND 0x0800 = 0 \<longleftrightarrow> unat x div 2048 mod 2 = 0"
    and "x AND 0x0200 = 0 \<longleftrightarrow> unat x div 512 mod 2 = 0"
proof -
  have b: "unat x < 65536"
    using unsigned_less [of x, where ?'a = nat] by simp
  show "x AND 0xff00 = 0 \<longleftrightarrow> unat x < 256"
    using and_window_eq_0 [of x 8 8] b by (simp add: mask_eq_exp_minus_1) arith
  show "x AND 0xf000 = 0 \<longleftrightarrow> unat x < 4096"
    using and_window_eq_0 [of x 12 4] b by (simp add: mask_eq_exp_minus_1) arith
  show "x AND 0xc000 = 0 \<longleftrightarrow> unat x < 16384"
    using and_window_eq_0 [of x 14 2] b by (simp add: mask_eq_exp_minus_1) arith
  show "x AND 0x8000 = 0 \<longleftrightarrow> unat x < 32768"
    using and_window_eq_0 [of x 15 1] b by (simp add: mask_eq_exp_minus_1) arith
  show "x AND 0x2000 = 0 \<longleftrightarrow> unat x div 8192 mod 2 = 0"
    using and_window_eq_0 [of x 13 1] by (simp add: mask_eq_exp_minus_1)
  show "x AND 0x0c00 = 0 \<longleftrightarrow> unat x div 1024 mod 4 = 0"
    using and_window_eq_0 [of x 10 2] by (simp add: mask_eq_exp_minus_1)
  show "x AND 0x0800 = 0 \<longleftrightarrow> unat x div 2048 mod 2 = 0"
    using and_window_eq_0 [of x 11 1] by (simp add: mask_eq_exp_minus_1)
  show "x AND 0x0200 = 0 \<longleftrightarrow> unat x div 512 mod 2 = 0"
    using and_window_eq_0 [of x 9 1] by (simp add: mask_eq_exp_minus_1)
qed

subsection \<open>The common tail of the 16-bit conversion\<close>

lemma lg_less: "lg i < 256"
  using unsigned_less [of "log2_minus_x_plus_one_shifted_by_1 ! i", where ?'a = nat]
  by (simp add: lg_def)

lemma unat_eq_of_nat16:
  fixes w :: "16 word"
  assumes "w = word_of_nat k" "k < 65536"
  shows "unat w = k"
  using assms by (simp add: unat_of_nat)

lemma mod_window:
  fixes n :: nat
  assumes "c \<le> n" "n < 2 * c"
  shows "n mod c = n - c"
proof -
  have "n mod c = (n - c) mod c"
    using assms(1) by (rule le_mod_geq)
  also have "\<dots> = n - c"
    using assms by simp
  finally show ?thesis .
qed

lemma tail_index:
  fixes x :: "16 word" 
  assumes "512 \<le> unat x" "unat x < 1024"
  shows "unat (ucast (drop_bit 1 x) :: 8 word) = unat x div 2 - 256"
proof -
  have "unat (ucast (drop_bit 1 x) :: 8 word) = (unat x div 2) mod 256"
    by (simp add: unsigned_ucast_eq unat_drop_bit_eq take_bit_eq_mod) (simp add: drop_bit_eq_div)
  also have "\<dots> = unat x div 2 - 256"
  proof -
    have "256 \<le> unat x div 2" "unat x div 2 < 2 * 256"
      using assms by simp_all
    then show ?thesis by (rule mod_window)
  qed
  finally show ?thesis .
qed

lemma word16_split:
  fixes x :: "16 word"
  assumes "c \<le> unat x"
  shows "x = word_of_nat c + word_of_nat (unat x - c)"
proof -
  have "word_of_nat c + word_of_nat (unat x - c) = (word_of_nat (c + (unat x - c)) :: 16 word)"
    by (simp only: of_nat_add)
  also have "\<dots> = word_of_nat (unat x)"
    using assms by (simp only: le_add_diff_inverse)
  also have "\<dots> = x"
    by simp
  finally show ?thesis ..
qed

lemma from_u16_tail_unat:
  fixes x :: "16 word" and e :: "8 word"
  assumes "512 \<le> unat x" "unat x < 1024" "unat e < 16"
  shows "unat (pmfl_from_u16_tail x e) =
    512 * unat e + (unat x - 512) + lg (unat x div 2 - 256)"
proof -
  let ?m = "unat x"
  define off where "off = log2_minus_x_plus_one_shifted_by_1 ! (?m div 2 - 256)"
  define r where "r = ?m - 512"
  have w: "pmfl_from_u16_tail x e = x + ucast off - 0x200 + push_bit 9 (ucast e)"
    unfolding pmfl_from_u16_tail_def Let_def tail_index [OF assms(1,2)] off_def ..
  have x: "x = 512 + word_of_nat r"
    unfolding r_def by (rule word16_split [OF assms(1), unfolded of_nat_numeral])
  have "x + ucast off - 0x200 + push_bit 9 (ucast e) =
     (512 + word_of_nat r) + ucast off - 0x200 + push_bit 9 (ucast e)"
    by (subst x) (rule refl)
  also have "\<dots> = word_of_nat (512 * unat e + r + unat off)"
    by (simp add: push_bit_eq_mult)
  finally have eq: "pmfl_from_u16_tail x e = word_of_nat (512 * unat e + r + unat off)"
    using w by (simp only:)
  have "512 * unat e + r + unat off < 65536"
    using assms unsigned_less [of off, where ?'a = nat] by (simp add: r_def)
  with eq have "unat (pmfl_from_u16_tail x e) = 512 * unat e + r + unat off"
    by (rule unat_eq_of_nat16)
  then show ?thesis
    by (simp only: r_def lg_def off_def)
qed

subsection \<open>The branches of the 16-bit conversion\<close>

lemma from_u16_class_8:
  fixes x :: "16 word"
  assumes "256 \<le> unat x" "unat x < 512"
  shows "pmfl_from_u16 x = pmfl_from_u16_tail (push_bit 1 x) 8"
proof -
  have d1: "unat x div 1024 = 0"
    by (rule div_nat_eqI) (use assms in simp_all)
  have d2: "unat x div 512 = 0"
    by (rule div_nat_eqI) (use assms in simp_all)
  show ?thesis
    using assms by (simp add: pmfl_from_u16_def tests16 d1 d2)
qed

lemma from_u16_class_9:
  fixes x :: "16 word"
  assumes "512 \<le> unat x" "unat x < 1024"
  shows "pmfl_from_u16 x = pmfl_from_u16_tail (x) 9"
proof -
  have d1: "unat x div 1024 = 0"
    by (rule div_nat_eqI) (use assms in simp_all)
  have d2: "unat x div 512 = 1"
    by (rule div_nat_eqI) (use assms in simp_all)
  show ?thesis
    using assms by (simp add: pmfl_from_u16_def tests16 d1 d2)
qed

lemma from_u16_class_10:
  fixes x :: "16 word"
  assumes "1024 \<le> unat x" "unat x < 2048"
  shows "pmfl_from_u16 x = pmfl_from_u16_tail (drop_bit 1 x) 10"
proof -
  have d1: "unat x div 1024 = 1"
    by (rule div_nat_eqI) (use assms in simp_all)
  have d2: "unat x div 2048 = 0"
    by (rule div_nat_eqI) (use assms in simp_all)
  show ?thesis
    using assms by (simp add: pmfl_from_u16_def tests16 d1 d2)
qed

lemma from_u16_class_11:
  fixes x :: "16 word"
  assumes "2048 \<le> unat x" "unat x < 4096"
  shows "pmfl_from_u16 x = pmfl_from_u16_tail (drop_bit 2 x) 11"
proof -
  have d0: "2 \<le> unat x div 1024" "unat x div 1024 < 4"
    using assms by simp_all
  then have d1: "unat x div 1024 mod 4 \<noteq> 0" "unat x div 1024 \<noteq> 0"
    by simp_all
  have d2: "unat x div 2048 = 1"
    by (rule div_nat_eqI) (use assms in simp_all)
  show ?thesis
    using assms by (simp add: pmfl_from_u16_def tests16 d1 d2)
qed

lemma from_u16_class_12:
  fixes x :: "16 word"
  assumes "4096 \<le> unat x" "unat x < 8192"
  shows "pmfl_from_u16 x = pmfl_from_u16_tail (drop_bit 3 x) 12"
proof -
  have d1: "unat x div 8192 = 0"
    by (rule div_nat_eqI) (use assms in simp_all)
  show ?thesis
    using assms by (simp add: pmfl_from_u16_def tests16 d1)
qed

lemma from_u16_class_13:
  fixes x :: "16 word"
  assumes "8192 \<le> unat x" "unat x < 16384"
  shows "pmfl_from_u16 x = pmfl_from_u16_tail (drop_bit 4 x) 13"
proof -
  have d1: "unat x div 8192 = 1"
    by (rule div_nat_eqI) (use assms in simp_all)
  show ?thesis
    using assms by (simp add: pmfl_from_u16_def tests16 d1)
qed

lemma from_u16_class_14:
  fixes x :: "16 word"
  assumes "16384 \<le> unat x" "unat x < 32768"
  shows "pmfl_from_u16 x = pmfl_from_u16_tail (drop_bit 5 x) 14"
proof -
  show ?thesis
    using assms by (simp add: pmfl_from_u16_def tests16 )
qed

lemma from_u16_class_15:
  fixes x :: "16 word"
  assumes "32768 \<le> unat x" "unat x < 65536"
  shows "pmfl_from_u16 x = pmfl_from_u16_tail (drop_bit 6 x) 15"
proof -
  show ?thesis
    using assms by (simp add: pmfl_from_u16_def tests16 )
qed

subsection \<open>The 8-bit conversion\<close>

lemma tests8:
  fixes x :: "8 word"
  shows "x AND 0xf0 = 0 \<longleftrightarrow> unat x < 16"
    and "x AND 0xc0 = 0 \<longleftrightarrow> unat x < 64"
    and "x AND 0x80 = 0 \<longleftrightarrow> unat x < 128"
    and "x AND 0x0c = 0 \<longleftrightarrow> unat x div 4 mod 4 = 0"
    and "x AND 0x02 = 0 \<longleftrightarrow> unat x div 2 mod 2 = 0"
    and "x AND 0x08 = 0 \<longleftrightarrow> unat x div 8 mod 2 = 0"
    and "x AND 0x20 = 0 \<longleftrightarrow> unat x div 32 mod 2 = 0"
proof -
  have b: "unat x < 256"
    using unsigned_less [of x, where ?'a = nat] by simp
  have small: "n div c mod r = 0 \<longleftrightarrow> n < c" if "n < c * r" "0 < c" for n c r :: nat
  proof -
    have "n div c < r"
      using that by (simp add: less_mult_imp_div_less mult.commute)
    then have "n div c mod r = n div c" by simp
    then show ?thesis using that by (simp add: div_eq_0_iff)
  qed
  show "x AND 0xf0 = 0 \<longleftrightarrow> unat x < 16"
    using and_window_eq_0 [of x 4 4] small [of "unat x" 16 16] b by (simp add: mask_eq_exp_minus_1)
  show "x AND 0xc0 = 0 \<longleftrightarrow> unat x < 64"
    using and_window_eq_0 [of x 6 2] small [of "unat x" 64 4] b by (simp add: mask_eq_exp_minus_1)
  show "x AND 0x80 = 0 \<longleftrightarrow> unat x < 128"
    using and_window_eq_0 [of x 7 1] small [of "unat x" 128 2] b by (simp add: mask_eq_exp_minus_1)
  show "x AND 0x0c = 0 \<longleftrightarrow> unat x div 4 mod 4 = 0"
    using and_window_eq_0 [of x 2 2] by (simp add: mask_eq_exp_minus_1)
  show "x AND 0x02 = 0 \<longleftrightarrow> unat x div 2 mod 2 = 0"
    using and_window_eq_0 [of x 1 1] by (simp add: mask_eq_exp_minus_1)
  show "x AND 0x08 = 0 \<longleftrightarrow> unat x div 8 mod 2 = 0"
    using and_window_eq_0 [of x 3 1] by (simp add: mask_eq_exp_minus_1)
  show "x AND 0x20 = 0 \<longleftrightarrow> unat x div 32 mod 2 = 0"
    using and_window_eq_0 [of x 5 1] by (simp add: mask_eq_exp_minus_1)
qed

lemma ucast_or_high:
  fixes y :: "8 word" and c :: "16 word"
  shows "(ucast y :: 16 word) OR push_bit 8 c = ucast y + push_bit 8 c"
  by (rule disjunctive_add [symmetric]) (auto simp add: bit_simps dest: bit_imp_le_length)

lemma from_u8_tail_unat:
  fixes y :: "8 word" and c :: nat
  assumes "c < 8"
  shows "unat (pmfl_from_u8_tail (ucast y OR push_bit 8 (word_of_nat c))) =
     512 * c + 2 * unat y + lg (unat y)"
proof -
  define res :: "16 word" where "res = ucast y OR push_bit 8 (word_of_nat c)"
  have res: "res = word_of_nat (unat y + 256 * c)"
    unfolding res_def ucast_or_high by (simp add: push_bit_eq_mult)
  have ff: "(0x00ff :: 16 word) = mask 8"
    by (simp add: mask_eq_exp_minus_1)
  have low: "(ucast (res AND 0x00ff) :: 8 word) = y"
    unfolding res_def ff by (rule bit_word_eqI) (auto simp add: bit_simps)
  have "pmfl_from_u8_tail res = push_bit 1 res + ucast (log2_minus_x_plus_one_shifted_by_1 ! unat y)"
    by (simp only: pmfl_from_u8_tail_def Let_def low)
  also have "\<dots> = word_of_nat (512 * c + 2 * unat y + lg (unat y))"
    unfolding res lg_def by (simp add: push_bit_eq_mult)
  finally have eq: "pmfl_from_u8_tail res = word_of_nat (512 * c + 2 * unat y + lg (unat y))" .
  have "512 * c + 2 * unat y + lg (unat y) < 65536"
    using assms lg_less [of "unat y"] unsigned_less [of y, where ?'a = nat] by simp
  with eq show ?thesis
    unfolding res_def by (rule unat_eq_of_nat16)
qed

lemma unat_push_bit8:
  fixes x :: "8 word"
  assumes "256 \<le> unat x * 2 ^ k" "unat x * 2 ^ k < 512"
  shows "unat (push_bit k x) = unat x * 2 ^ k - 256"
proof -
  have "unat (push_bit k x) = (unat x * 2 ^ k) mod 256"
    by (subst unsigned_push_bit_eq) (simp add: take_bit_eq_mod push_bit_eq_mult)
  also have "\<dots> = unat x * 2 ^ k - 256"
    using assms by (intro mod_window) simp_all
  finally show ?thesis .
qed

lemma from_u8_class_0:
  fixes x :: "8 word"
  assumes "unat x = 1"
  shows "unat (pmfl_from_u8 x) = lg 0"
proof -
  have c: "x AND 0xf0 = 0" "x AND 0x0c = 0" "x AND 0x02 = 0"
    using assms by (simp_all add: tests8)
  have nz: "x \<noteq> 0"
    using assms by auto
  have "pmfl_from_u8 x = pmfl_from_u8_tail 0x0000"
    by (simp only: pmfl_from_u8_def c nz if_True if_False simp_thms)
  also have "\<dots> = pmfl_from_u8_tail (ucast (0 :: 8 word) OR push_bit 8 (word_of_nat 0))"
    by simp
  finally show ?thesis
    using from_u8_tail_unat [of 0 0] by simp
qed

lemma from_u8_class_1:
  fixes x :: "8 word"
  assumes "2 \<le> unat x" "unat x < 4"
  shows "unat (pmfl_from_u8 x) =
    512 * 1 + 2 * (unat x * 128 - 256) + lg (unat x * 128 - 256)"
proof -
  have d0: "unat x div 4 = 0"
    by (rule div_nat_eqI) (use assms in simp_all)
  have d1: "unat x div 2 = 1"
    by (rule div_nat_eqI) (use assms in simp_all)
  have c: "x AND 0xf0 = 0" "x AND 0x0c = 0" "x AND 0x02 \<noteq> 0"
    using assms by (simp_all add: tests8 d0 d1)
  have "pmfl_from_u8 x = pmfl_from_u8_tail (ucast (push_bit 7 x :: 8 word) OR 0x0100)"
    by (simp only: pmfl_from_u8_def c if_True if_False simp_thms)
  also have "(0x0100 :: 16 word) = push_bit 8 (word_of_nat 1)"
    by simp
  finally have br: "pmfl_from_u8 x =
      pmfl_from_u8_tail (ucast (push_bit 7 x :: 8 word) OR push_bit 8 (word_of_nat 1))" .
  have "unat (pmfl_from_u8 x) =
      512 * 1 + 2 * unat (push_bit 7 x) + lg (unat (push_bit 7 x))"
    unfolding br by (rule from_u8_tail_unat) simp
  moreover have "unat (push_bit 7 x) = unat x * 128 - 256"
    using unat_push_bit8 [of x 7] assms by simp
  ultimately show ?thesis
    by (simp only:)
qed

lemma from_u8_class_2:
  fixes x :: "8 word"
  assumes "4 \<le> unat x" "unat x < 8"
  shows "unat (pmfl_from_u8 x) =
    512 * 2 + 2 * (unat x * 64 - 256) + lg (unat x * 64 - 256)"
proof -
  have d0: "unat x div 4 = 1"
    by (rule div_nat_eqI) (use assms in simp_all)
  have d1: "unat x div 8 = 0"
    by (rule div_nat_eqI) (use assms in simp_all)
  have c: "x AND 0xf0 = 0" "x AND 0x0c \<noteq> 0" "x AND 0x08 = 0"
    using assms by (simp_all add: tests8 d0 d1)
  have "pmfl_from_u8 x = pmfl_from_u8_tail (ucast (push_bit 6 x :: 8 word) OR 0x0200)"
    by (simp only: pmfl_from_u8_def c if_True if_False simp_thms)
  also have "(0x0200 :: 16 word) = push_bit 8 (word_of_nat 2)"
    by simp
  finally have br: "pmfl_from_u8 x =
      pmfl_from_u8_tail (ucast (push_bit 6 x :: 8 word) OR push_bit 8 (word_of_nat 2))" .
  have "unat (pmfl_from_u8 x) =
      512 * 2 + 2 * unat (push_bit 6 x) + lg (unat (push_bit 6 x))"
    unfolding br by (rule from_u8_tail_unat) simp
  moreover have "unat (push_bit 6 x) = unat x * 64 - 256"
    using unat_push_bit8 [of x 6] assms by simp
  ultimately show ?thesis
    by (simp only:)
qed

lemma from_u8_class_3:
  fixes x :: "8 word"
  assumes "8 \<le> unat x" "unat x < 16"
  shows "unat (pmfl_from_u8 x) =
    512 * 3 + 2 * (unat x * 32 - 256) + lg (unat x * 32 - 256)"
proof -
  have d0: "unat x div 8 = 1"
    by (rule div_nat_eqI) (use assms in simp_all)
  have d9: "2 \<le> unat x div 4" "unat x div 4 < 4"
    using assms by simp_all
  then have d8: "unat x div 4 mod 4 \<noteq> 0" "unat x div 4 \<noteq> 0"
    by simp_all
  have c: "x AND 0xf0 = 0" "x AND 0x0c \<noteq> 0" "x AND 0x08 \<noteq> 0"
    using assms by (simp_all add: tests8 d0 d8)
  have "pmfl_from_u8 x = pmfl_from_u8_tail (ucast (push_bit 5 x :: 8 word) OR 0x0300)"
    by (simp only: pmfl_from_u8_def c if_True if_False simp_thms)
  also have "(0x0300 :: 16 word) = push_bit 8 (word_of_nat 3)"
    by simp
  finally have br: "pmfl_from_u8 x =
      pmfl_from_u8_tail (ucast (push_bit 5 x :: 8 word) OR push_bit 8 (word_of_nat 3))" .
  have "unat (pmfl_from_u8 x) =
      512 * 3 + 2 * unat (push_bit 5 x) + lg (unat (push_bit 5 x))"
    unfolding br by (rule from_u8_tail_unat) simp
  moreover have "unat (push_bit 5 x) = unat x * 32 - 256"
    using unat_push_bit8 [of x 5] assms by simp
  ultimately show ?thesis
    by (simp only:)
qed

lemma from_u8_class_4:
  fixes x :: "8 word"
  assumes "16 \<le> unat x" "unat x < 32"
  shows "unat (pmfl_from_u8 x) =
    512 * 4 + 2 * (unat x * 16 - 256) + lg (unat x * 16 - 256)"
proof -
  have d0: "unat x div 32 = 0"
    by (rule div_nat_eqI) (use assms in simp_all)
  have c: "x AND 0xf0 \<noteq> 0" "x AND 0xc0 = 0" "x AND 0x20 = 0"
    using assms by (simp_all add: tests8 d0)
  have "pmfl_from_u8 x = pmfl_from_u8_tail (ucast (push_bit 4 x :: 8 word) OR 0x0400)"
    by (simp only: pmfl_from_u8_def c if_True if_False simp_thms)
  also have "(0x0400 :: 16 word) = push_bit 8 (word_of_nat 4)"
    by simp
  finally have br: "pmfl_from_u8 x =
      pmfl_from_u8_tail (ucast (push_bit 4 x :: 8 word) OR push_bit 8 (word_of_nat 4))" .
  have "unat (pmfl_from_u8 x) =
      512 * 4 + 2 * unat (push_bit 4 x) + lg (unat (push_bit 4 x))"
    unfolding br by (rule from_u8_tail_unat) simp
  moreover have "unat (push_bit 4 x) = unat x * 16 - 256"
    using unat_push_bit8 [of x 4] assms by simp
  ultimately show ?thesis
    by (simp only:)
qed

lemma from_u8_class_5:
  fixes x :: "8 word"
  assumes "32 \<le> unat x" "unat x < 64"
  shows "unat (pmfl_from_u8 x) =
    512 * 5 + 2 * (unat x * 8 - 256) + lg (unat x * 8 - 256)"
proof -
  have d0: "unat x div 32 = 1"
    by (rule div_nat_eqI) (use assms in simp_all)
  have c: "x AND 0xf0 \<noteq> 0" "x AND 0xc0 = 0" "x AND 0x20 \<noteq> 0"
    using assms by (simp_all add: tests8 d0)
  have "pmfl_from_u8 x = pmfl_from_u8_tail (ucast (push_bit 3 x :: 8 word) OR 0x0500)"
    by (simp only: pmfl_from_u8_def c if_True if_False simp_thms)
  also have "(0x0500 :: 16 word) = push_bit 8 (word_of_nat 5)"
    by simp
  finally have br: "pmfl_from_u8 x =
      pmfl_from_u8_tail (ucast (push_bit 3 x :: 8 word) OR push_bit 8 (word_of_nat 5))" .
  have "unat (pmfl_from_u8 x) =
      512 * 5 + 2 * unat (push_bit 3 x) + lg (unat (push_bit 3 x))"
    unfolding br by (rule from_u8_tail_unat) simp
  moreover have "unat (push_bit 3 x) = unat x * 8 - 256"
    using unat_push_bit8 [of x 3] assms by simp
  ultimately show ?thesis
    by (simp only:)
qed

lemma from_u8_class_6:
  fixes x :: "8 word"
  assumes "64 \<le> unat x" "unat x < 128"
  shows "unat (pmfl_from_u8 x) =
    512 * 6 + 2 * (unat x * 4 - 256) + lg (unat x * 4 - 256)"
proof -
  have c: "x AND 0xf0 \<noteq> 0" "x AND 0xc0 \<noteq> 0" "x AND 0x80 = 0"
    using assms by (simp_all add: tests8 )
  have "pmfl_from_u8 x = pmfl_from_u8_tail (ucast (push_bit 2 x :: 8 word) OR 0x0600)"
    by (simp only: pmfl_from_u8_def c if_True if_False simp_thms)
  also have "(0x0600 :: 16 word) = push_bit 8 (word_of_nat 6)"
    by simp
  finally have br: "pmfl_from_u8 x =
      pmfl_from_u8_tail (ucast (push_bit 2 x :: 8 word) OR push_bit 8 (word_of_nat 6))" .
  have "unat (pmfl_from_u8 x) =
      512 * 6 + 2 * unat (push_bit 2 x) + lg (unat (push_bit 2 x))"
    unfolding br by (rule from_u8_tail_unat) simp
  moreover have "unat (push_bit 2 x) = unat x * 4 - 256"
    using unat_push_bit8 [of x 2] assms by simp
  ultimately show ?thesis
    by (simp only:)
qed

lemma from_u8_class_7:
  fixes x :: "8 word"
  assumes "128 \<le> unat x" "unat x < 256"
  shows "unat (pmfl_from_u8 x) =
    512 * 7 + 2 * (unat x * 2 - 256) + lg (unat x * 2 - 256)"
proof -
  have c: "x AND 0xf0 \<noteq> 0" "x AND 0xc0 \<noteq> 0" "x AND 0x80 \<noteq> 0"
    using assms by (simp_all add: tests8 )
  have "pmfl_from_u8 x = pmfl_from_u8_tail (ucast (push_bit 1 x :: 8 word) OR 0x0700)"
    by (simp only: pmfl_from_u8_def c if_True if_False simp_thms)
  also have "(0x0700 :: 16 word) = push_bit 8 (word_of_nat 7)"
    by simp
  finally have br: "pmfl_from_u8 x =
      pmfl_from_u8_tail (ucast (push_bit 1 x :: 8 word) OR push_bit 8 (word_of_nat 7))" .
  have "unat (pmfl_from_u8 x) =
      512 * 7 + 2 * unat (push_bit 1 x) + lg (unat (push_bit 1 x))"
    unfolding br by (rule from_u8_tail_unat) simp
  moreover have "unat (push_bit 1 x) = unat x * 2 - 256"
    using unat_push_bit8 [of x 1] assms by simp
  ultimately show ?thesis
    by (simp only:)
qed

subsection \<open>The steps of the conversion to 16 bits\<close>

lemma uint_less_of_unat:
  fixes w :: "'a::len word"
  assumes "unat w < n"
  shows "uint w < int n"
proof -
  have "int (unat w) < int n"
    using assms by (simp only: of_nat_less_iff)
  then show ?thesis by simp
qed

lemma unat_of_uint_eq:
  fixes w :: "'a::len word"
  assumes "uint w = int n"
  shows "unat w = n"
proof -
  have "unat w = nat (uint w)" by (rule unat_eq_nat_uint)
  also have "\<dots> = n" by (simp only: assms nat_int)
  finally show ?thesis .
qed

lemma sint_small16:
  fixes w :: "16 word"
  assumes "unat w < 32768"
  shows "sint w = uint w"
proof -
  have "uint w < 2 ^ 15"
    using uint_less_of_unat [OF assms] by simp
  moreover have "- (2 ^ 15) \<le> uint w"
    by (rule order_trans [of _ 0]) simp_all
  ultimately have "signed_take_bit 15 (uint w) = uint w"
    by (simp only: signed_take_bit_int_eq_self)
  then show ?thesis
    by (simp only: sint_uint) simp
qed

lemma signed_drop_bit_small16:
  fixes w :: "16 word"
  assumes "unat w < 32768"
  shows "unat (signed_drop_bit k w) = unat w div 2 ^ k"
proof -
  have u: "uint w = int (unat w)" by simp
  have "sint (signed_drop_bit k w) = drop_bit k (sint w)"
    by (rule sint_signed_drop_bit_eq)
  also have "\<dots> = drop_bit k (int (unat w))"
    by (simp only: sint_small16 [OF assms] u)
  also have "\<dots> = int (unat w div 2 ^ k)"
    by (simp only: drop_bit_eq_div zdiv_int of_nat_power of_nat_numeral)
  finally have s: "sint (signed_drop_bit k w) = int (unat w div 2 ^ k)" .
  have b: "unat w div 2 ^ k < 65536"
  proof -
    have "unat w div 2 ^ k \<le> unat w" by (rule div_le_dividend)
    also have "unat w < 65536" using assms by simp
    finally show ?thesis .
  qed
  have "uint (signed_drop_bit k w) = take_bit 16 (sint (signed_drop_bit k w))"
    by (simp add: uint_sint)
  also have "\<dots> = int (unat w div 2 ^ k) mod 65536"
    by (simp only: s take_bit_eq_mod) simp
  also have "\<dots> = int (unat w div 2 ^ k)"
    using b by simp
  finally show ?thesis
    by (rule unat_of_uint_eq)
qed

lemma unat_ucast_drop_bit:
  fixes y :: "16 word"
  assumes "unat y div 2 ^ k < 256"
  shows "unat (ucast (drop_bit k y) :: 8 word) = unat y div 2 ^ k"
proof -
  have "unat (ucast (drop_bit k y) :: 8 word) = take_bit 8 (unat (drop_bit k y))"
    by (simp only: unsigned_ucast_eq) simp
  also have "\<dots> = take_bit 8 (unat y div 2 ^ k)"
    by (simp only: unat_drop_bit_eq) (simp only: drop_bit_eq_div)
  also have "\<dots> = unat y div 2 ^ k"
    using assms by (simp only: take_bit_eq_mod) simp
  finally show ?thesis .
qed

lemma unat_and_1ff:
  fixes L :: "16 word"
  shows "unat (L AND 0x01ff) = unat L mod 512"
proof -
  have m: "(0x01ff :: 16 word) = mask 9"
    by (simp add: mask_eq_exp_minus_1)
  have "unat (L AND mask 9) = unat (take_bit 9 L)"
    by (simp only: take_bit_eq_mask)
  also have "\<dots> = take_bit 9 (unat L)"
    by (rule unsigned_take_bit_eq)
  also have "\<dots> = unat L mod 512"
    by (simp only: take_bit_eq_mod) simp
  finally show ?thesis
    by (simp only: m)
qed

lemma to_u16_guards:
  fixes L :: "16 word"
  assumes "unat L < 8192"
  shows "\<not> L <s 0" and "\<not> 0x2000 \<le>s L"
proof -
  have "unat L < 32768" using assms by simp
  then have s: "sint L = uint L" by (rule sint_small16)
  show "\<not> L <s 0"
    by (simp add: word_sless_alt s)
  have "uint L < 8192"
    using uint_less_of_unat [OF assms] by simp
  then show "\<not> 0x2000 \<le>s L"
    by (simp add: word_sle_eq s)
qed

lemma unat_push_bit16:
  fixes w :: "16 word"
  assumes "unat w * 2 ^ k < 65536"
  shows "unat (push_bit k w) = unat w * 2 ^ k"
proof -
  have "unat (push_bit k w) = take_bit 16 (push_bit k (unat w))"
    by (subst unsigned_push_bit_eq) simp
  also have "\<dots> = (unat w * 2 ^ k) mod 65536"
    by (simp only: take_bit_eq_mod push_bit_eq_mult) simp
  also have "\<dots> = unat w * 2 ^ k"
    using assms by simp
  finally show ?thesis .
qed

lemma ex_less: "ex i < 256"
  using unsigned_less [of "x_minus_pow2_of_x_minus_one_shifted_by_1 ! i", where ?'a = nat]
  by (simp add: ex_def)

lemma expval_bounds:
  assumes "f < 512"
  shows "256 < expval f" and "expval f < 1024"
  using assms ex_less [of "f div 2"] by (simp_all add: expval_def)

lemma to_u16_x3:
  fixes x1 :: "16 word" and off :: "8 word"
  assumes "unat x1 < 512"
  shows "unat (x1 + 0x200 - ucast off) = unat x1 + 512 - unat off"
proof -
  have o: "unat off < 256"
    using unsigned_less [of off, where ?'a = nat] by simp
  have "word_of_nat (unat x1 + 512 - unat off) + (word_of_nat (unat off) :: 16 word) =
      word_of_nat ((unat x1 + 512 - unat off) + unat off)"
    by (simp only: of_nat_add)
  also have "(unat x1 + 512 - unat off) + unat off = unat x1 + 512"
    using o by simp
  finally have "word_of_nat (unat x1 + 512 - unat off) + (ucast off :: 16 word) = x1 + 0x200"
    by simp
  then have "x1 + 0x200 - ucast off = word_of_nat (unat x1 + 512 - unat off)"
    by (metis add_diff_cancel_right')
  moreover have "unat x1 + 512 - unat off < 65536"
    using assms by simp
  ultimately show ?thesis
    by (rule unat_eq_of_nat16)
qed

lemma to_u16_unat:
  fixes L :: "16 word"
  assumes "unat L < 8192"
  shows "unat (pmfl_to_u16 L) = antilog (unat L div 512) (unat L mod 512)"
proof -
  define E where "E = unat L div 512"
  define f where "f = unat L mod 512"
  define exponent :: "8 word" where "exponent = ucast (drop_bit 9 L)"
  define x1 where "x1 = L AND 0x01ff"
  define index :: "8 word" where "index = ucast (drop_bit 1 x1)"
  define off where "off = x_minus_pow2_of_x_minus_one_shifted_by_1 ! unat index"
  define x3 where "x3 = x1 + 0x200 - ucast off"
  have E16: "E < 16"
    using assms by (simp add: E_def)
  have f512: "f < 512"
    by (simp add: f_def)
  have body: "pmfl_to_u16 L =
      (if 9 < exponent then push_bit (unat exponent - 9) x3
       else if exponent < 9 then signed_drop_bit (9 - unat exponent) (x3 + 1)
       else x3)"
    by (simp only: pmfl_to_u16_def to_u16_guards [OF assms] if_False Let_def
        exponent_def x1_def index_def off_def x3_def)
  have ex: "unat exponent = E"
    unfolding exponent_def E_def
    using unat_ucast_drop_bit [of L 9] assms by simp
  have x1: "unat x1 = f"
    unfolding x1_def f_def by (rule unat_and_1ff)
  have tail_index: "unat index = f div 2"
    unfolding index_def
    using unat_ucast_drop_bit [of x1 1] f512 by (simp add: x1)
  have x3: "unat x3 = expval f"
    unfolding x3_def expval_def off_def tail_index ex_def
    using to_u16_x3 [of x1] f512 by (simp add: x1)
  have v: "256 < expval f" "expval f < 1024"
    using expval_bounds [OF f512] by simp_all
  have c1: "9 < exponent \<longleftrightarrow> 9 < E"
    by (simp add: word_less_nat_alt ex)
  have c2: "exponent < 9 \<longleftrightarrow> E < 9"
    by (simp add: word_less_nat_alt ex)
  show ?thesis
  proof (cases "9 < E")
    case True
    have "(2::nat) ^ (E - 9) \<le> 2 ^ 6"
      using E16 by (intro power_increasing) simp_all
    then have "expval f * 2 ^ (E - 9) \<le> expval f * 2 ^ 6"
      by (rule mult_le_mono2)
    also have "\<dots> < 65536"
      using v by simp
    finally have "unat x3 * 2 ^ (E - 9) < 65536"
      by (simp only: x3)
    then have "unat (push_bit (E - 9) x3) = unat x3 * 2 ^ (E - 9)"
      by (rule unat_push_bit16)
    with True show ?thesis
      by (simp only: body c1 ex x3 antilog_def E_def [symmetric] f_def [symmetric] if_True)
  next
    case False
    show ?thesis
    proof (cases "E < 9")
      case True
      have s: "x3 + 1 = word_of_nat (expval f + 1)"
        by (simp flip: x3)
      have "unat (x3 + 1) = expval f + 1"
        using s v by (intro unat_eq_of_nat16) simp_all
      moreover from this have "unat (x3 + 1) < 32768"
        using v by simp
      then have "unat (signed_drop_bit (9 - E) (x3 + 1)) = unat (x3 + 1) div 2 ^ (9 - E)"
        by (rule signed_drop_bit_small16)
      ultimately have "unat (signed_drop_bit (9 - E) (x3 + 1)) = (expval f + 1) div 2 ^ (9 - E)"
        by (simp only:)
      with True \<open>\<not> 9 < E\<close> show ?thesis
        by (simp only: body c1 c2 ex antilog_def E_def [symmetric] f_def [symmetric] if_True if_False)
    next
      case False
      with \<open>\<not> 9 < E\<close> show ?thesis
        by (simp only: body c1 c2 ex x3 antilog_def E_def [symmetric] f_def [symmetric] if_False)
    qed
  qed
qed

subsection \<open>The conversion to 32 bits\<close>

lemma unat_push_bit_no_overflow:
  fixes w :: "'a::len word"
  assumes "unat w * 2 ^ k < 2 ^ LENGTH('a)"
  shows "unat (push_bit k w) = unat w * 2 ^ k"
proof -
  have "unat (push_bit k w) = take_bit LENGTH('a) (push_bit k (unat w))"
    by (rule unsigned_push_bit_eq)
  also have "\<dots> = (unat w * 2 ^ k) mod 2 ^ LENGTH('a)"
    by (simp only: take_bit_eq_mod push_bit_eq_mult)
  also have "\<dots> = unat w * 2 ^ k"
    using assms by simp
  finally show ?thesis .
qed

lemma to_u32_guards:
  fixes L :: "16 word"
  assumes "unat L < 16384"
  shows "\<not> L <s 0" and "\<not> 0x4000 \<le>s L"
proof -
  have "unat L < 32768" using assms by simp
  then have s: "sint L = uint L" by (rule sint_small16)
  show "\<not> L <s 0"
    by (simp add: word_sless_alt s)
  have "uint L < 16384"
    using uint_less_of_unat [OF assms] by simp
  then show "\<not> 0x4000 \<le>s L"
    by (simp add: word_sle_eq s)
qed

lemma to_u32_exponent:
  fixes L :: "16 word"
  shows "unat (ucast (drop_bit 9 L) :: 8 word) = unat L div 512"
proof -
  have "unat L < 65536"
    using unsigned_less [of L, where ?'a = nat] by simp
  then have "unat L div 2 ^ 9 < 256"
    by simp
  then show ?thesis
    using unat_ucast_drop_bit [of L 9] by simp
qed

lemma unat_ucast_16_32:
  fixes w :: "16 word"
  shows "unat (ucast w :: 32 word) = unat w"
proof -
  have "unat w < 65536"
    using unsigned_less [of w, where ?'a = nat] by simp
  then have "unat w mod 4294967296 = unat w"
    by simp
  then show ?thesis
    by (simp add: unsigned_ucast_eq take_bit_eq_mod)
qed

lemma unat_ucast_8_16:
  fixes w :: "8 word"
  shows "unat (ucast w :: 16 word) = unat w"
proof -
  have "unat w < 256"
    using unsigned_less [of w, where ?'a = nat] by simp
  then have "unat w mod 65536 = unat w"
    by simp
  then show ?thesis
    by (simp add: unsigned_ucast_eq take_bit_eq_mod)
qed

lemma to_u32_low:
  fixes L :: "16 word"
  assumes "unat L < 8192"
  shows "unat (pmfl_to_u32 L) = unat (pmfl_to_u16 L)"
proof -
  have g: "\<not> L <s 0" "\<not> 0x4000 \<le>s L"
    using assms by (intro to_u32_guards; simp)+
  have "unat L div 512 < 16"
    using assms by simp
  then have c: "(ucast (drop_bit 9 L) :: 8 word) < 0x10"
    by (simp only: word_less_nat_alt to_u32_exponent) simp
  have "pmfl_to_u32 L = ucast (pmfl_to_u16 L)"
    by (simp only: pmfl_to_u32_def g c if_True if_False Let_def)
  then show ?thesis
    by (simp only: unat_ucast_16_32)
qed

lemma divmod_split:
  fixes f c q :: nat
  assumes "f < c"
  shows "(c * q + f) div c = q" and "(c * q + f) mod c = f"
  using assms by simp_all

lemma to_u32_high:
  fixes L :: "16 word"
  assumes "8192 \<le> unat L" "unat L < 16384"
  shows "unat (pmfl_to_u32 L) = expval (unat L mod 512) * 2 ^ (unat L div 512 - 9)"
proof -
  define E where "E = unat L div 512"
  define f where "f = unat L mod 512"
  define exponent :: "8 word" where "exponent = ucast (drop_bit 9 L)"
  define shift where "shift = exponent - 0x0f"
  define x' where "x' = pmfl_shr L shift"
  have E: "16 \<le> E" "E < 32"
    using assms by (simp_all add: E_def)
  have f512: "f < 512"
    by (simp add: f_def)
  have l: "unat L = 512 * E + f"
    by (simp add: E_def f_def)
  have g: "\<not> L <s 0" "\<not> 0x4000 \<le>s L"
    using assms by (intro to_u32_guards; simp)+
  have ex: "unat exponent = E"
    unfolding exponent_def E_def by (rule to_u32_exponent)
  have c: "\<not> exponent < 0x10"
    using E by (simp add: word_less_nat_alt ex)
  have body: "pmfl_to_u32 L = push_bit (unat shift) (ucast (pmfl_to_u16 x') :: 32 word)"
    by (simp only: pmfl_to_u32_def g c if_False Let_def exponent_def [symmetric]
        shift_def [symmetric] x'_def [symmetric])
  have sh: "unat shift = E - 15"
  proof -
    have "(0x0f :: 8 word) \<le> exponent"
      using E by (simp add: word_le_nat_alt ex)
    then have "unat (exponent - 0x0f) = unat exponent - unat (0x0f :: 8 word)"
      by (rule unat_sub)
    then show ?thesis
      by (simp add: shift_def ex)
  qed
  have p: "unat (push_bit 9 (ucast shift :: 16 word)) = 512 * (E - 15)"
  proof -
    have "unat (ucast shift :: 16 word) * 2 ^ 9 < 2 ^ LENGTH(16)"
      using E by (simp add: unat_ucast_8_16 sh)
    then have "unat (push_bit 9 (ucast shift :: 16 word)) = unat (ucast shift :: 16 word) * 2 ^ 9"
      by (rule unat_push_bit_no_overflow)
    then show ?thesis
      by (simp add: unat_ucast_8_16 sh)
  qed
  have x': "unat x' = 512 * 15 + f"
  proof -
    have "push_bit 9 (ucast shift :: 16 word) \<le> L"
      using E by (simp add: word_le_nat_alt p l)
    then have "unat (L - push_bit 9 (ucast shift)) = unat L - unat (push_bit 9 (ucast shift :: 16 word))"
      by (rule unat_sub)
    then show ?thesis
      using E by (simp add: x'_def pmfl_shr_def p l)
  qed
  have "unat x' < 8192"
    using f512 by (simp add: x')
  then have "unat (pmfl_to_u16 x') = antilog (unat x' div 512) (unat x' mod 512)"
    by (rule to_u16_unat)
  also have "unat x' div 512 = 15"
    using divmod_split(1) [OF f512, of 15] by (simp add: x')
  also have "unat x' mod 512 = f"
    using divmod_split(2) [OF f512, of 15] by (simp add: x')
  finally have r16: "unat (pmfl_to_u16 x') = expval f * 64"
    by (simp add: antilog_def)
  have v: "expval f < 1024"
    using expval_bounds [OF f512] by simp
  have pw: "(64::nat) * 2 ^ (E - 15) = 2 ^ (E - 9)"
  proof -
    have "(64::nat) * 2 ^ (E - 15) = 2 ^ (6 + (E - 15))"
      by (simp add: power_add)
    also have "6 + (E - 15) = E - 9"
      using E by simp
    finally show ?thesis .
  qed
  have "(2::nat) ^ (E - 9) \<le> 2 ^ 22"
    using E by (intro power_increasing) simp_all
  then have "expval f * 2 ^ (E - 9) \<le> expval f * 2 ^ 22"
    by (rule mult_le_mono2)
  also have "\<dots> < 2 ^ LENGTH(32)"
    using v by simp
  finally have "unat (ucast (pmfl_to_u16 x') :: 32 word) * 2 ^ (E - 15) < 2 ^ LENGTH(32)"
    by (simp only: unat_ucast_16_32 r16 mult.assoc pw)
  then have "unat (push_bit (E - 15) (ucast (pmfl_to_u16 x') :: 32 word)) =
      unat (ucast (pmfl_to_u16 x') :: 32 word) * 2 ^ (E - 15)"
    by (rule unat_push_bit_no_overflow)
  then have "unat (pmfl_to_u32 L) = expval f * 2 ^ (E - 9)"
    by (simp only: body sh unat_ucast_16_32 r16 mult.assoc pw)
  then show ?thesis
    by (simp only: E_def f_def)
qed

subsection \<open>The two tables checked against each other\<close>

lemma lgs_eq: "lgs =
    [
     0, 1, 2, 3, 3, 4, 5, 6, 7, 8, 8, 9, 10, 11, 11, 12,
     13, 13, 14, 15, 16, 16, 17, 18, 18, 19, 19, 20, 21, 21, 22, 22,
     23, 24, 24, 25, 25, 26, 26, 27, 27, 28, 28, 29, 29, 30, 30, 31,
     31, 31, 32, 32, 33, 33, 33, 34, 34, 34, 35, 35, 36, 36, 36, 37,
     37, 37, 37, 38, 38, 38, 39, 39, 39, 39, 40, 40, 40, 40, 40, 41,
     41, 41, 41, 41, 42, 42, 42, 42, 42, 42, 43, 43, 43, 43, 43, 43,
     43, 43, 43, 43, 44, 44, 44, 44, 44, 44, 44, 44, 44, 44, 44, 44,
     44, 44, 44, 44, 44, 44, 44, 44, 44, 44, 44, 44, 44, 44, 44, 44,
     44, 43, 43, 43, 43, 43, 43, 43, 43, 43, 42, 42, 42, 42, 42, 42,
     42, 41, 41, 41, 41, 41, 41, 40, 40, 40, 40, 40, 39, 39, 39, 39,
     39, 38, 38, 38, 38, 37, 37, 37, 37, 36, 36, 36, 36, 35, 35, 35,
     35, 34, 34, 34, 33, 33, 33, 32, 32, 32, 31, 31, 31, 30, 30, 30,
     29, 29, 29, 28, 28, 28, 27, 27, 26, 26, 26, 25, 25, 24, 24, 24,
     23, 23, 22, 22, 22, 21, 21, 20, 20, 19, 19, 19, 18, 18, 17, 17,
     16, 16, 15, 15, 14, 14, 14, 13, 13, 12, 12, 11, 11, 10, 10, 9,
     9, 8, 8, 7, 6, 6, 5, 5, 4, 4, 3, 3, 2, 2, 1, 1
    ]"
  by (simp add: lgs_def log2_minus_x_plus_one_shifted_by_1_def)

lemma exs_eq: "exs =
    [
     0, 1, 1, 2, 2, 3, 4, 4, 5, 5, 6, 7, 7, 8, 8, 9,
     9, 10, 10, 11, 12, 12, 13, 13, 14, 14, 15, 15, 16, 16, 17, 17,
     18, 18, 19, 19, 20, 20, 21, 21, 21, 22, 22, 23, 23, 24, 24, 25,
     25, 25, 26, 26, 27, 27, 27, 28, 28, 29, 29, 29, 30, 30, 30, 31,
     31, 31, 32, 32, 32, 33, 33, 33, 34, 34, 34, 35, 35, 35, 36, 36,
     36, 36, 37, 37, 37, 38, 38, 38, 38, 38, 39, 39, 39, 39, 40, 40,
     40, 40, 40, 41, 41, 41, 41, 41, 41, 42, 42, 42, 42, 42, 42, 42,
     43, 43, 43, 43, 43, 43, 43, 43, 43, 44, 44, 44, 44, 44, 44, 44,
     44, 44, 44, 44, 44, 44, 44, 44, 44, 44, 44, 44, 44, 44, 44, 44,
     44, 44, 44, 44, 44, 44, 43, 43, 43, 43, 43, 43, 43, 43, 43, 43,
     42, 42, 42, 42, 42, 42, 41, 41, 41, 41, 41, 41, 40, 40, 40, 40,
     39, 39, 39, 39, 38, 38, 38, 38, 37, 37, 37, 37, 36, 36, 36, 35,
     35, 35, 34, 34, 34, 33, 33, 32, 32, 32, 31, 31, 30, 30, 30, 29,
     29, 28, 28, 27, 27, 27, 26, 26, 25, 25, 24, 24, 23, 23, 22, 22,
     21, 20, 20, 19, 19, 18, 18, 17, 16, 16, 15, 15, 14, 13, 13, 12,
     11, 11, 10, 9, 9, 8, 7, 7, 6, 5, 5, 4, 3, 2, 2, 1
    ]"
  by (simp add: exs_def x_minus_pow2_of_x_minus_one_shifted_by_1_def)

lemma tables_checked: "tables_ok 0 lgs exs"
  unfolding lgs_eq exs_eq
  by (simp add: entry_ok_def Let_def)

lemma tables_ok_nth:
  "tables_ok i ts us \<Longrightarrow> k < length ts \<Longrightarrow> entry_ok (i + k) (ts ! k) (drop k us)"
proof (induction ts arbitrary: i us k)
  case Nil
  then show ?case by simp
next
  case (Cons t ts)
  show ?case
  proof (cases k)
    case 0
    with Cons.prems show ?thesis by simp
  next
    case (Suc k')
    with Cons.prems have "tables_ok (i + 1) ts (tl us)" "k' < length ts"
      by simp_all
    then have "entry_ok (i + 1 + k') (ts ! k') (drop k' (tl us))"
      by (rule Cons.IH)
    with Suc show ?thesis
      by (simp add: drop_Suc)
  qed
qed

lemma table_lengths:
  "length log2_minus_x_plus_one_shifted_by_1 = 256"
  "length x_minus_pow2_of_x_minus_one_shifted_by_1 = 256"
  by (simp_all add: log2_minus_x_plus_one_shifted_by_1_def
      x_minus_pow2_of_x_minus_one_shifted_by_1_def)

lemma lg_nth: "i < 256 \<Longrightarrow> lgs ! i = lg i"
  by (simp add: lgs_def lg_def table_lengths)

lemma ex_nth: "i < 256 \<Longrightarrow> exs ! i = ex i"
  by (simp add: exs_def ex_def table_lengths)

lemma entry_checked:
  assumes "i < 256"
  shows "entry_ok i (lg i) (drop i exs)"
proof -
  have "i < length lgs"
    using assms by (simp add: lgs_def table_lengths)
  with tables_checked have "entry_ok (0 + i) (lgs ! i) (drop i exs)"
    by (rule tables_ok_nth)
  then show ?thesis
    using assms by (simp add: lg_nth)
qed

lemma drop_exs_nth:
  assumes "i + s < 256"
  shows "drop i exs ! s = ex (i + s)"
proof -
  have "i + s < length exs"
    using assms by (simp add: exs_def table_lengths)
  then have "drop i exs ! s = exs ! (i + s)"
    by (simp add: nth_drop)
  then show ?thesis
    using assms by (simp add: ex_nth)
qed

lemma table_even:
  assumes "i < 256"
  defines "t \<equiv> lg i"
  defines "u \<equiv> ex (i + lg i div 2)"
  shows "2 * i + t < 512" and "u \<le> t + 1" and "t \<le> u + 1"
    and "255 * (514 + 2 * i) \<le> 256 * (512 + 2 * i + t - u)"
proof -
  have e: "entry_ok i t (drop i exs)"
    unfolding t_def using assms(1) by (rule entry_checked)
  then have r: "i + t div 2 < 256"
    by (simp add: entry_ok_def)
  have u: "drop i exs ! (t div 2) = u"
    unfolding u_def t_def [symmetric] using r by (rule drop_exs_nth)
  from e show "2 * i + t < 512" and "u \<le> t + 1" and "t \<le> u + 1"
    and "255 * (514 + 2 * i) \<le> 256 * (512 + 2 * i + t - u)"
    by (simp_all add: entry_ok_def Let_def u)
qed

lemma table_odd:
  assumes "i < 256"
  defines "t \<equiv> lg i"
  defines "u \<equiv> ex (i + (lg i + 1) div 2)"
  shows "2 * i + 1 + t < 512 \<and> u \<le> t + 1 \<and> t \<le> u + 1 \<or> i = 255 \<and> t = 1"
proof -
  have "entry_ok i t (drop i exs)"
    unfolding t_def using assms(1) by (rule entry_checked)
  then have e: "if i + (t + 1) div 2 < 256
      then 2 * i + 1 + t < 512 \<and>
        (drop i exs ! ((t + 1) div 2) \<le> t + 1 \<and> t \<le> drop i exs ! ((t + 1) div 2) + 1)
      else i = 255 \<and> t = 1"
    unfolding entry_ok_def Let_def by blast
  show ?thesis
  proof (cases "i + (t + 1) div 2 < 256")
    case True
    have u: "drop i exs ! ((t + 1) div 2) = u"
      unfolding u_def t_def [symmetric] using True by (rule drop_exs_nth)
    from e True have "2 * i + 1 + t < 512 \<and>
        (drop i exs ! ((t + 1) div 2) \<le> t + 1 \<and> t \<le> drop i exs ! ((t + 1) div 2) + 1)"
      by (simp only: if_True)
    then show ?thesis
      unfolding u by blast
  next
    case False
    with e have "i = 255 \<and> t = 1"
      by (simp only: if_False)
    then show ?thesis by blast
  qed
qed

lemma ex_0: "ex 0 = 0"
  using ex_nth [of 0] by (simp add: exs_eq)

subsection \<open>The logarithm of a number by the position of its leading one\<close>

lemma l0_double: "l0 (2 * a) = 2 * (a - 256) + lg (a - 256)"
  by (simp add: l0_def diff_mult_distrib2)

lemma exponent_cases:
  fixes e :: nat
  assumes "e \<le> 15"
  obtains "e = 0" | "e = 1" | "e = 2" | "e = 3" | "e = 4" | "e = 5" | "e = 6" | "e = 7"
    | "e = 8" | "e = 9" | "e = 10" | "e = 11" | "e = 12" | "e = 13" | "e = 14" | "e = 15"
proof -
  from assms have "e = 0 \<or> e = 1 \<or> e = 2 \<or> e = 3 \<or> e = 4 \<or> e = 5 \<or> e = 6 \<or> e = 7
    \<or> e = 8 \<or> e = 9 \<or> e = 10 \<or> e = 11 \<or> e = 12 \<or> e = 13 \<or> e = 14 \<or> e = 15"
    by arith
  then show thesis
    using that by blast
qed

lemma from_u8_unat:
  fixes x :: "8 word"
  assumes "e \<le> 7" "2 ^ e \<le> unat x" "unat x < 2 ^ (e + 1)"
  shows "unat (pmfl_from_u8 x) = 512 * e + l0 (unat x * 2 ^ (9 - e))"
proof -
  from assms(1) have "e \<le> 15" by simp
  then show ?thesis
  proof (cases e rule: exponent_cases)
    case 1
    with assms have "unat x = 1" by simp
    then show ?thesis
      using from_u8_class_0 [of x] 1 by (simp add: l0_def)
  next
    case 2
    have d: "unat x * 2 ^ (9 - 1) = 2 * (unat x * 128)"
      by simp
    have "unat (pmfl_from_u8 x) =
        512 * 1 + 2 * (unat x * 128 - 256) + lg (unat x * 128 - 256)"
      using assms 2 by (intro from_u8_class_1) simp_all
    then show ?thesis
      unfolding 2 by (simp only: d l0_double)
  next
    case 3
    have d: "unat x * 2 ^ (9 - 2) = 2 * (unat x * 64)"
      by simp
    have "unat (pmfl_from_u8 x) =
        512 * 2 + 2 * (unat x * 64 - 256) + lg (unat x * 64 - 256)"
      using assms 3 by (intro from_u8_class_2) simp_all
    then show ?thesis
      unfolding 3 by (simp only: d l0_double)
  next
    case 4
    have d: "unat x * 2 ^ (9 - 3) = 2 * (unat x * 32)"
      by simp
    have "unat (pmfl_from_u8 x) =
        512 * 3 + 2 * (unat x * 32 - 256) + lg (unat x * 32 - 256)"
      using assms 4 by (intro from_u8_class_3) simp_all
    then show ?thesis
      unfolding 4 by (simp only: d l0_double)
  next
    case 5
    have d: "unat x * 2 ^ (9 - 4) = 2 * (unat x * 16)"
      by simp
    have "unat (pmfl_from_u8 x) =
        512 * 4 + 2 * (unat x * 16 - 256) + lg (unat x * 16 - 256)"
      using assms 5 by (intro from_u8_class_4) simp_all
    then show ?thesis
      unfolding 5 by (simp only: d l0_double)
  next
    case 6
    have d: "unat x * 2 ^ (9 - 5) = 2 * (unat x * 8)"
      by simp
    have "unat (pmfl_from_u8 x) =
        512 * 5 + 2 * (unat x * 8 - 256) + lg (unat x * 8 - 256)"
      using assms 6 by (intro from_u8_class_5) simp_all
    then show ?thesis
      unfolding 6 by (simp only: d l0_double)
  next
    case 7
    have d: "unat x * 2 ^ (9 - 6) = 2 * (unat x * 4)"
      by simp
    have "unat (pmfl_from_u8 x) =
        512 * 6 + 2 * (unat x * 4 - 256) + lg (unat x * 4 - 256)"
      using assms 7 by (intro from_u8_class_6) simp_all
    then show ?thesis
      unfolding 7 by (simp only: d l0_double)
  next
    case 8
    have d: "unat x * 2 ^ (9 - 7) = 2 * (unat x * 2)"
      by simp
    have "unat (pmfl_from_u8 x) =
        512 * 7 + 2 * (unat x * 2 - 256) + lg (unat x * 2 - 256)"
      using assms 8 by (intro from_u8_class_7) simp_all
    then show ?thesis
      unfolding 8 by (simp only: d l0_double)
  qed (use assms in simp_all)
qed

lemma unat_ucast_16_8:
  fixes x :: "16 word"
  assumes "unat x < 256"
  shows "unat (ucast x :: 8 word) = unat x"
  using assms by (simp add: unsigned_ucast_eq take_bit_eq_mod)

lemma from_u16_unat_low:
  fixes x :: "16 word"
  assumes "e \<le> 7" "2 ^ e \<le> unat x" "unat x < 2 ^ (e + 1)"
  shows "unat (pmfl_from_u16 x) = 512 * e + l0 (unat x * 2 ^ (9 - e))"
proof -
  have "(2::nat) ^ (e + 1) \<le> 2 ^ 8"
    using assms(1) by (intro power_increasing) simp_all
  with assms(3) have small: "unat x < 256"
    by simp
  then have z: "x AND 0xff00 = 0"
    by (simp add: tests16)
  have "pmfl_from_u16 x = pmfl_from_u8 (ucast x)"
    by (simp only: pmfl_from_u16_def z if_True simp_thms)
  moreover have "unat (pmfl_from_u8 (ucast x)) = 512 * e + l0 (unat (ucast x :: 8 word) * 2 ^ (9 - e))"
    using assms by (intro from_u8_unat) (simp_all only: unat_ucast_16_8 [OF small])
  ultimately show ?thesis
    by (simp only: unat_ucast_16_8 [OF small])
qed

lemma from_u16_unat_8:
  fixes x :: "16 word"
  assumes "256 \<le> unat x" "unat x < 512"
  shows "unat (pmfl_from_u16 x) = 512 * 8 + l0 (unat x * 2)"
proof -
  define y where "y = push_bit 1 x"
  have m: "unat y = unat x * 2"
    unfolding y_def using unat_push_bit_no_overflow [of x 1] assms by simp
  have "unat (pmfl_from_u16_tail y 8) =
      512 * unat (8 :: 8 word) + (unat y - 512) + lg (unat y div 2 - 256)"
    using assms by (intro from_u16_tail_unat) (simp_all add: m)
  moreover have "pmfl_from_u16 x = pmfl_from_u16_tail y 8"
    unfolding y_def using assms by (rule from_u16_class_8)
  ultimately show ?thesis
    by (simp add: m l0_def)
qed

lemma from_u16_unat_high:
  fixes x :: "16 word"
  assumes "9 \<le> e" "e \<le> 15" "2 ^ e \<le> unat x" "unat x < 2 ^ (e + 1)"
  shows "unat (pmfl_from_u16 x) = 512 * e + l0 (unat x div 2 ^ (e - 9))"
  using assms(2)
proof (cases e rule: exponent_cases)
  case 10
  define y where "y = x"
  have m: "unat y = unat x div 1"
    unfolding y_def by simp
  have b: "512 \<le> unat y" "unat y < 1024"
    unfolding m using assms 10 by simp_all
  have "unat (pmfl_from_u16_tail y 9) =
      512 * unat (9 :: 8 word) + (unat y - 512) + lg (unat y div 2 - 256)"
    using b by (intro from_u16_tail_unat) simp_all
  moreover have "pmfl_from_u16 x = pmfl_from_u16_tail y 9"
    unfolding y_def using assms 10 by (intro from_u16_class_9) simp_all
  ultimately show ?thesis
    using 10 by (simp add: m l0_def)
next
  case 11
  define y where "y = drop_bit 1 x"
  have m: "unat y = unat x div 2"
    unfolding y_def by (simp only: unat_drop_bit_eq) (simp add: drop_bit_eq_div)
  have b: "512 \<le> unat y" "unat y < 1024"
    unfolding m using assms 11 by simp_all
  have "unat (pmfl_from_u16_tail y 10) =
      512 * unat (10 :: 8 word) + (unat y - 512) + lg (unat y div 2 - 256)"
    using b by (intro from_u16_tail_unat) simp_all
  moreover have "pmfl_from_u16 x = pmfl_from_u16_tail y 10"
    unfolding y_def using assms 11 by (intro from_u16_class_10) simp_all
  ultimately show ?thesis
    using 11 by (simp add: m l0_def)
next
  case 12
  define y where "y = drop_bit 2 x"
  have m: "unat y = unat x div 4"
    unfolding y_def by (simp only: unat_drop_bit_eq) (simp add: drop_bit_eq_div)
  have b: "512 \<le> unat y" "unat y < 1024"
    unfolding m using assms 12 by simp_all
  have "unat (pmfl_from_u16_tail y 11) =
      512 * unat (11 :: 8 word) + (unat y - 512) + lg (unat y div 2 - 256)"
    using b by (intro from_u16_tail_unat) simp_all
  moreover have "pmfl_from_u16 x = pmfl_from_u16_tail y 11"
    unfolding y_def using assms 12 by (intro from_u16_class_11) simp_all
  ultimately show ?thesis
    using 12 by (simp add: m l0_def)
next
  case 13
  define y where "y = drop_bit 3 x"
  have m: "unat y = unat x div 8"
    unfolding y_def by (simp only: unat_drop_bit_eq) (simp add: drop_bit_eq_div)
  have b: "512 \<le> unat y" "unat y < 1024"
    unfolding m using assms 13 by simp_all
  have "unat (pmfl_from_u16_tail y 12) =
      512 * unat (12 :: 8 word) + (unat y - 512) + lg (unat y div 2 - 256)"
    using b by (intro from_u16_tail_unat) simp_all
  moreover have "pmfl_from_u16 x = pmfl_from_u16_tail y 12"
    unfolding y_def using assms 13 by (intro from_u16_class_12) simp_all
  ultimately show ?thesis
    using 13 by (simp add: m l0_def)
next
  case 14
  define y where "y = drop_bit 4 x"
  have m: "unat y = unat x div 16"
    unfolding y_def by (simp only: unat_drop_bit_eq) (simp add: drop_bit_eq_div)
  have b: "512 \<le> unat y" "unat y < 1024"
    unfolding m using assms 14 by simp_all
  have "unat (pmfl_from_u16_tail y 13) =
      512 * unat (13 :: 8 word) + (unat y - 512) + lg (unat y div 2 - 256)"
    using b by (intro from_u16_tail_unat) simp_all
  moreover have "pmfl_from_u16 x = pmfl_from_u16_tail y 13"
    unfolding y_def using assms 14 by (intro from_u16_class_13) simp_all
  ultimately show ?thesis
    using 14 by (simp add: m l0_def)
next
  case 15
  define y where "y = drop_bit 5 x"
  have m: "unat y = unat x div 32"
    unfolding y_def by (simp only: unat_drop_bit_eq) (simp add: drop_bit_eq_div)
  have b: "512 \<le> unat y" "unat y < 1024"
    unfolding m using assms 15 by simp_all
  have "unat (pmfl_from_u16_tail y 14) =
      512 * unat (14 :: 8 word) + (unat y - 512) + lg (unat y div 2 - 256)"
    using b by (intro from_u16_tail_unat) simp_all
  moreover have "pmfl_from_u16 x = pmfl_from_u16_tail y 14"
    unfolding y_def using assms 15 by (intro from_u16_class_14) simp_all
  ultimately show ?thesis
    using 15 by (simp add: m l0_def)
next
  case 16
  define y where "y = drop_bit 6 x"
  have m: "unat y = unat x div 64"
    unfolding y_def by (simp only: unat_drop_bit_eq) (simp add: drop_bit_eq_div)
  have b: "512 \<le> unat y" "unat y < 1024"
    unfolding m using assms 16 by simp_all
  have "unat (pmfl_from_u16_tail y 15) =
      512 * unat (15 :: 8 word) + (unat y - 512) + lg (unat y div 2 - 256)"
    using b by (intro from_u16_tail_unat) simp_all
  moreover have "pmfl_from_u16 x = pmfl_from_u16_tail y 15"
    unfolding y_def using assms 16 by (intro from_u16_class_15) simp_all
  ultimately show ?thesis
    using 16 by (simp add: m l0_def)
qed (use assms in simp_all)

lemma mant_table:
  assumes "512 \<le> m" "m < 1024"
  shows "(l0 m < 512 \<and> m \<le> expval (l0 m) + 1 \<and> expval (l0 m) \<le> m + 1 \<and>
          (even m \<longrightarrow> 255 * (m + 2) \<le> 256 * expval (l0 m))) \<or>
         (m = 1023 \<and> l0 m = 512)"
proof -
  define i where "i = m div 2 - 256"
  define t where "t = lg i"
  define l where "l = l0 m"
  define V where "V = expval l"
  have i: "i < 256"
    using assms by (simp add: i_def)
  have half: "m div 2 = i + 256"
    using assms by (simp add: i_def)
  have goal: "(l < 512 \<and> m \<le> V + 1 \<and> V \<le> m + 1 \<and> (even m \<longrightarrow> 255 * (m + 2) \<le> 256 * V)) \<or>
         (m = 1023 \<and> l = 512)"
  proof (cases "even m")
    case True
    then have "m = 2 * (m div 2)" by simp
    then have m: "m = 2 * i + 512"
      by (simp only: half) simp
    define u where "u = ex (i + lg i div 2)"
    have l: "l = 2 * i + t"
      unfolding l_def l0_def i_def [symmetric] t_def [symmetric] by (simp add: m)
    have d: "(2 * i + t) div 2 = i + t div 2"
      by simp
    have v: "V = 2 * i + t + 512 - u"
      unfolding V_def expval_def l d by (simp only: u_def t_def)
    have f: "2 * i + t < 512" "u \<le> t + 1" "t \<le> u + 1"
      "255 * (514 + 2 * i) \<le> 256 * (512 + 2 * i + t - u)"
      using table_even [OF i] by (simp_all only: t_def u_def)
    have ub: "u < 256"
      unfolding u_def by (rule ex_less)
    have "l < 512"
      using f(1) by (simp only: l)
    moreover have "m \<le> V + 1"
      using f(2) ub by (simp add: v m)
    moreover have "V \<le> m + 1"
      using f(3) ub by (simp add: v m)
    moreover have "255 * (m + 2) \<le> 256 * V"
      using f(4) by (simp add: v m ac_simps)
    ultimately show ?thesis by blast
  next
    case False
    then have "m = 2 * (m div 2) + 1"
      by presburger
    then have m: "m = 2 * i + 513"
      by (simp only: half) simp
    define u where "u = ex (i + (lg i + 1) div 2)"
    have l: "l = 2 * i + 1 + t"
      unfolding l_def l0_def i_def [symmetric] t_def [symmetric] by (simp add: m)
    have d: "(2 * i + 1 + t) div 2 = i + (t + 1) div 2"
      by simp
    have v: "V = 2 * i + 1 + t + 512 - u"
      unfolding V_def expval_def l d by (simp only: u_def t_def)
    have ub: "u < 256"
      unfolding u_def by (rule ex_less)
    have "2 * i + 1 + t < 512 \<and> u \<le> t + 1 \<and> t \<le> u + 1 \<or> i = 255 \<and> t = 1"
      using table_odd [OF i] by (simp only: t_def u_def)
    then show ?thesis
    proof
      assume "2 * i + 1 + t < 512 \<and> u \<le> t + 1 \<and> t \<le> u + 1"
      then have f: "2 * i + 1 + t < 512" "u \<le> t + 1" "t \<le> u + 1"
        by blast+
      have "l < 512"
        using f(1) by (simp only: l)
      moreover have "m \<le> V + 1"
        using f(2) ub by (simp add: v m)
      moreover have "V \<le> m + 1"
        using f(3) ub by (simp add: v m)
      ultimately show ?thesis
        using False by blast
    next
      assume "i = 255 \<and> t = 1"
      then have "m = 1023" "l = 512"
        by (simp_all add: m l)
      then show ?thesis by blast
    qed
  qed
  then show ?thesis
    unfolding V_def l_def .
qed

lemma l0_le:
  assumes "512 \<le> m" "m < 1024"
  shows "l0 m \<le> 512"
  using mant_table [OF assms] by auto

lemma mant_low:
  fixes n e :: nat
  assumes "e \<le> 8" "2 ^ e \<le> n" "n < 2 ^ (e + 1)"
  shows "512 \<le> n * 2 ^ (9 - e)" and "n * 2 ^ (9 - e) < 1024"
proof -
  have a: "(2::nat) ^ e * 2 ^ (9 - e) = 512"
  proof -
    have "(2::nat) ^ e * 2 ^ (9 - e) = 2 ^ (e + (9 - e))" by (simp only: power_add)
    also have "e + (9 - e) = 9" using assms(1) by simp
    finally show ?thesis by simp
  qed
  have b: "(2::nat) ^ (e + 1) * 2 ^ (9 - e) = 1024"
  proof -
    have "(2::nat) ^ (e + 1) * 2 ^ (9 - e) = 2 ^ ((e + 1) + (9 - e))" by (simp only: power_add)
    also have "(e + 1) + (9 - e) = 10" using assms(1) by simp
    finally show ?thesis by simp
  qed
  have "2 ^ e * 2 ^ (9 - e) \<le> n * 2 ^ (9 - e)"
    using assms(2) by (rule mult_le_mono1)
  then show "512 \<le> n * 2 ^ (9 - e)"
    by (simp only: a)
  have "n * 2 ^ (9 - e) < 2 ^ (e + 1) * 2 ^ (9 - e)"
    using assms(3) by (intro mult_less_mono1) simp_all
  then show "n * 2 ^ (9 - e) < 1024"
    by (simp only: b)
qed

lemma pow_high:
  fixes e :: nat
  assumes "9 \<le> e"
  shows "(2::nat) ^ e = 512 * 2 ^ (e - 9)" and "(2::nat) ^ (e + 1) = 1024 * 2 ^ (e - 9)"
proof -
  have "(2::nat) ^ (9 + (e - 9)) = 2 ^ 9 * 2 ^ (e - 9)" by (rule power_add)
  moreover have "9 + (e - 9) = e" using assms by simp
  ultimately show "(2::nat) ^ e = 512 * 2 ^ (e - 9)" by simp
  have "(2::nat) ^ (10 + (e - 9)) = 2 ^ 10 * 2 ^ (e - 9)" by (rule power_add)
  moreover have "10 + (e - 9) = e + 1" using assms by simp
  ultimately show "(2::nat) ^ (e + 1) = 1024 * 2 ^ (e - 9)" by simp
qed

lemma mant_high:
  fixes n e :: nat
  assumes "9 \<le> e" "2 ^ e \<le> n" "n < 2 ^ (e + 1)"
  shows "512 \<le> n div 2 ^ (e - 9)" and "n div 2 ^ (e - 9) < 1024"
proof -
  have "512 * 2 ^ (e - 9) \<le> n"
    using assms(2) by (simp only: pow_high(1) [OF assms(1)])
  then show "512 \<le> n div 2 ^ (e - 9)"
    by (simp add: less_eq_div_iff_mult_less_eq)
  have "n < 1024 * 2 ^ (e - 9)"
    using assms(3) by (simp only: pow_high(2) [OF assms(1)])
  then show "n div 2 ^ (e - 9) < 1024"
    by (simp add: less_mult_imp_div_less)
qed

lemma exponent_exists:
  fixes n :: nat
  assumes "0 < n" "n < 2 ^ N"
  shows "\<exists>e<N. 2 ^ e \<le> n \<and> n < 2 ^ (e + 1)"
  using assms
proof (induction N)
  case 0
  then show ?case by simp
next
  case (Suc N)
  show ?case
  proof (cases "n < 2 ^ N")
    case True
    with Suc obtain e where "e < N" "2 ^ e \<le> n \<and> n < 2 ^ (e + 1)"
      by blast
    then show ?thesis
      using less_Suc_eq by auto
  next
    case False
    with Suc.prems have "2 ^ N \<le> n \<and> n < 2 ^ (N + 1)"
      by simp
    then show ?thesis by blast
  qed
qed

subsection \<open>The 32-bit conversion\<close>

lemma mant_bounds:
  assumes "2 ^ e \<le> n" "n < 2 ^ (e + 1)"
  shows "512 \<le> mant e n" and "mant e n < 1024"
  using mant_low [of e n] mant_high [of e n] assms by (simp_all add: mant_def)

lemma from_u16_unat:
  fixes x :: "16 word"
  assumes "e \<le> 15" "2 ^ e \<le> unat x" "unat x < 2 ^ (e + 1)"
  shows "unat (pmfl_from_u16 x) = 512 * e + l0 (mant e (unat x))"
proof -
  consider "e \<le> 7" | "e = 8" | "9 \<le> e"
    by linarith
  then show ?thesis
  proof cases
    case 1
    then show ?thesis
      using from_u16_unat_low [OF 1 assms(2,3)] by (simp add: mant_def)
  next
    case 2
    then show ?thesis
      using from_u16_unat_8 [of x] assms(2,3) by (simp add: mant_def)
  next
    case 3
    then show ?thesis
      using from_u16_unat_high [OF 3 assms] by (simp add: mant_def)
  qed
qed

lemma from_u16_le:
  fixes x :: "16 word"
  assumes "e \<le> 15" "2 ^ e \<le> unat x" "unat x < 2 ^ (e + 1)"
  shows "unat (pmfl_from_u16 x) \<le> 512 * e + 512"
  using from_u16_unat [OF assms] l0_le [OF mant_bounds [OF assms(2,3)]] by simp

lemma word_exponent:
  fixes x :: "'a::len word"
  assumes "x \<noteq> 0"
  obtains e where "e < LENGTH('a)" "2 ^ e \<le> unat x" "unat x < 2 ^ (e + 1)"
proof -
  have "0 < unat x"
    using assms by (simp add: unat_gt_0)
  moreover have "unat x < 2 ^ LENGTH('a)"
    by (rule unsigned_less)
  ultimately show thesis
    using exponent_exists [of "unat x" "LENGTH('a)"] that by blast
qed

lemma from_u8_le:
  fixes x :: "8 word"
  assumes "x \<noteq> 0"
  shows "unat (pmfl_from_u8 x) \<le> 0x1000"
proof -
  obtain e where e: "e < 8" "2 ^ e \<le> unat x" "unat x < 2 ^ (e + 1)"
    using word_exponent [OF assms] by auto
  then have e7: "e \<le> 7" by simp
  have "unat (pmfl_from_u8 x) = 512 * e + l0 (unat x * 2 ^ (9 - e))"
    using e7 e(2,3) by (rule from_u8_unat)
  moreover have "l0 (unat x * 2 ^ (9 - e)) \<le> 512"
    using mant_low [of e "unat x"] e by (intro l0_le) simp_all
  ultimately show ?thesis
    using e7 by simp
qed

lemma from_u16_le_2000:
  fixes x :: "16 word"
  assumes "x \<noteq> 0"
  shows "unat (pmfl_from_u16 x) \<le> 0x2000"
proof -
  obtain e where e: "e < 16" "2 ^ e \<le> unat x" "unat x < 2 ^ (e + 1)"
    using word_exponent [OF assms] by auto
  then have "e \<le> 15" by simp
  then have "unat (pmfl_from_u16 x) \<le> 512 * e + 512"
    using e(2,3) by (rule from_u16_le)
  with \<open>e \<le> 15\<close> show ?thesis by simp
qed

lemma tests32:
  fixes x :: "32 word"
  shows "x AND 0xffff0000 = 0 \<longleftrightarrow> unat x < 65536"
    and "x AND 0xff000000 = 0 \<longleftrightarrow> unat x < 16777216"
proof -
  have b: "unat x < 4294967296"
    using unsigned_less [of x, where ?'a = nat] by simp
  have small: "n div c mod r = 0 \<longleftrightarrow> n < c" if "n < c * r" "0 < c" for n c r :: nat
  proof -
    have "n div c < r"
      using that by (simp add: less_mult_imp_div_less mult.commute)
    then have "n div c mod r = n div c" by simp
    then show ?thesis using that by (simp add: div_eq_0_iff)
  qed
  show "x AND 0xffff0000 = 0 \<longleftrightarrow> unat x < 65536"
    using and_window_eq_0 [of x 16 16] small [of "unat x" 65536 65536] b
    by (simp add: mask_eq_exp_minus_1)
  show "x AND 0xff000000 = 0 \<longleftrightarrow> unat x < 16777216"
    using and_window_eq_0 [of x 24 8] small [of "unat x" 16777216 256] b
    by (simp add: mask_eq_exp_minus_1)
qed

lemma unat_ucast_drop_bit32:
  fixes x :: "32 word"
  assumes "unat x div 2 ^ k < 65536"
  shows "unat (ucast (drop_bit k x) :: 16 word) = unat x div 2 ^ k"
proof -
  have "unat (ucast (drop_bit k x) :: 16 word) = take_bit 16 (unat (drop_bit k x))"
    by (simp only: unsigned_ucast_eq) simp
  also have "\<dots> = take_bit 16 (unat x div 2 ^ k)"
    by (simp only: unat_drop_bit_eq) (simp only: drop_bit_eq_div)
  also have "\<dots> = unat x div 2 ^ k"
    using assms by (simp only: take_bit_eq_mod) simp
  finally show ?thesis .
qed

lemma from_u32_low:
  fixes x :: "32 word"
  assumes "unat x < 65536"
  shows "pmfl_from_u32 x = pmfl_from_u16 (ucast x)" and "unat (ucast x :: 16 word) = unat x"
proof -
  have z: "x AND 0xffff0000 = 0"
    using assms by (simp add: tests32)
  show "pmfl_from_u32 x = pmfl_from_u16 (ucast x)"
    by (simp only: pmfl_from_u32_def z if_True simp_thms)
  show "unat (ucast x :: 16 word) = unat x"
    using unat_ucast_drop_bit32 [of x 0] assms by simp
qed

lemma unat_add16:
  fixes a :: "16 word"
  assumes "unat a + c < 65536"
  shows "unat (a + word_of_nat c) = unat a + c"
proof -
  have "a + word_of_nat c = word_of_nat (unat a + c)"
    by simp
  then show ?thesis
    using assms by (rule unat_eq_of_nat16)
qed

lemma from_u32_mid:
  fixes x :: "32 word"
  assumes "65536 \<le> unat x" "unat x < 16777216"
  defines "w \<equiv> (ucast (drop_bit 8 x) :: 16 word)"
  shows "unat (pmfl_from_u32 x) = unat (pmfl_from_u16 w) + 4096" and "unat w = unat x div 256"
    and "w \<noteq> 0"
proof -
  have z: "x AND 0xffff0000 \<noteq> 0" "x AND 0xff000000 = 0"
    using assms by (simp_all add: tests32)
  have body: "pmfl_from_u32 x = pmfl_from_u16 w + 0x1000"
    by (simp only: pmfl_from_u32_def z if_True if_False simp_thms Let_def w_def)
  show w: "unat w = unat x div 256"
    unfolding w_def using unat_ucast_drop_bit32 [of x 8] assms by simp
  then have "0 < unat w"
    using assms by simp
  then show nz: "w \<noteq> 0"
    by auto
  have "unat (pmfl_from_u16 w) \<le> 0x2000"
    using nz by (rule from_u16_le_2000)
  then have "unat (pmfl_from_u16 w + word_of_nat 4096) = unat (pmfl_from_u16 w) + 4096"
    by (intro unat_add16) simp
  then show "unat (pmfl_from_u32 x) = unat (pmfl_from_u16 w) + 4096"
    by (simp add: body)
qed

lemma from_u32_high:
  fixes x :: "32 word"
  assumes "16777216 \<le> unat x"
  defines "w \<equiv> (ucast (drop_bit 16 x) :: 16 word)"
  shows "unat (pmfl_from_u32 x) = unat (pmfl_from_u16 w) + 8192" and "unat w = unat x div 65536"
    and "w \<noteq> 0"
proof -
  have b: "unat x < 4294967296"
    using unsigned_less [of x, where ?'a = nat] by simp
  have z: "x AND 0xffff0000 \<noteq> 0" "x AND 0xff000000 \<noteq> 0"
    using assms by (simp_all add: tests32)
  have body: "pmfl_from_u32 x = pmfl_from_u16 w + 0x2000"
    by (simp only: pmfl_from_u32_def z if_True if_False simp_thms Let_def w_def)
  show w: "unat w = unat x div 65536"
    unfolding w_def using unat_ucast_drop_bit32 [of x 16] b by simp
  then have "0 < unat w"
    using assms by simp
  then show nz: "w \<noteq> 0"
    by auto
  have "unat (pmfl_from_u16 w) \<le> 0x2000"
    using nz by (rule from_u16_le_2000)
  then have "unat (pmfl_from_u16 w + word_of_nat 8192) = unat (pmfl_from_u16 w) + 8192"
    by (intro unat_add16) simp
  then show "unat (pmfl_from_u32 x) = unat (pmfl_from_u16 w) + 8192"
    by (simp add: body)
qed

lemma from_u32_le:
  fixes x :: "32 word"
  assumes "x \<noteq> 0"
  shows "unat (pmfl_from_u32 x) \<le> 0x4000"
proof -
  consider "unat x < 65536" | "65536 \<le> unat x" "unat x < 16777216" | "16777216 \<le> unat x"
    by linarith
  then show ?thesis
  proof cases
    case 1
    have "0 < unat x"
      using assms by (simp add: unat_gt_0)
    then have "0 < unat (ucast x :: 16 word)"
      by (simp only: from_u32_low(2) [OF 1])
    then have "(ucast x :: 16 word) \<noteq> 0"
      by auto
    then have "unat (pmfl_from_u16 (ucast x)) \<le> 0x2000"
      by (rule from_u16_le_2000)
    then show ?thesis
      by (simp add: from_u32_low(1) [OF 1])
  next
    case 2
    then show ?thesis
      using from_u32_mid(1) [OF 2] from_u16_le_2000 [OF from_u32_mid(3) [OF 2]] by simp
  next
    case 3
    then show ?thesis
      using from_u32_high(1) [OF 3] from_u16_le_2000 [OF from_u32_high(3) [OF 3]] by simp
  qed
qed

lemma not_sentinel:
  fixes r :: "16 word"
  assumes "unat r \<le> 0x4000"
  shows "r \<noteq> 0x8000"
proof
  assume "r = 0x8000"
  then have "unat r = 32768" by simp
  with assms show False by simp
qed

subsection \<open>Round trip of a mantissa\<close>

lemma remant_bounds:
  assumes "512 \<le> m" "m < 1024"
  shows "m \<le> remant m + 1" and "remant m \<le> m + 1"
    and "even m \<Longrightarrow> 255 * (m + 2) \<le> 256 * remant m"
    and "even m \<Longrightarrow> l0 m < 512"
  using mant_table [OF assms] by (auto simp add: remant_def)

lemma antilog_high:
  assumes "9 \<le> E"
  shows "antilog E f = expval f * 2 ^ (E - 9)"
  using assms by (cases "E = 9") (simp_all add: antilog_def)

lemma expval_0: "expval 0 = 512"
  by (simp add: expval_def ex_0)

lemma antilog_of_log:
  assumes "512 \<le> m" "m < 1024" "9 \<le> E"
  defines "l \<equiv> 512 * E + l0 m"
  shows "expval (l mod 512) * 2 ^ (l div 512 - 9) = remant m * 2 ^ (E - 9)"
proof (cases "l0 m < 512")
  case True
  then have "l div 512 = E" "l mod 512 = l0 m"
    unfolding l_def by (rule divmod_split)+
  then show ?thesis
    using True by (simp add: remant_def)
next
  case False
  with l0_le [OF assms(1,2)] have c: "l0 m = 512"
    by simp
  have "l = 512 * (E + 1) + 0"
    by (simp add: l_def c)
  then have "l div 512 = E + 1" "l mod 512 = 0"
    using divmod_split [of 0 512 "E + 1"] by simp_all
  moreover have "E + 1 - 9 = Suc (E - 9)"
    using assms(3) by simp
  ultimately show ?thesis
    by (simp add: remant_def c expval_0)
qed

lemma rebuilt_close:
  fixes n m W P low :: nat
  assumes "n = m * P + low" "low < P" "m \<le> W + 1" "W \<le> m + 1"
  shows "W * P \<le> n + P" and "n < W * P + 2 * P"
proof -
  have "W * P \<le> (m + 1) * P"
    using assms(4) by (rule mult_le_mono1)
  then show "W * P \<le> n + P"
    by (simp add: assms(1) algebra_simps)
  have "m * P \<le> (W + 1) * P"
    using assms(3) by (rule mult_le_mono1)
  then show "n < W * P + 2 * P"
    using assms(2) by (simp add: assms(1) algebra_simps)
qed

lemma abs_diff_le:
  fixes r n d :: nat
  assumes "r \<le> n + d" "n \<le> r + d"
  shows "\<bar>int r - int n\<bar> \<le> int d"
  using assms by linarith

subsection \<open>Round trip through 16 bits\<close>

lemma rt16_high:
  fixes x :: "16 word"
  assumes "9 \<le> e" "e \<le> 15" "2 ^ e \<le> unat x" "unat x < 2 ^ (e + 1)"
  defines "m \<equiv> unat x div 2 ^ (e - 9)"
  shows "unat (pmfl_to_u16 (pmfl_from_u16 x)) =
    (if e = 15 \<and> l0 m = 512 then 65535 else remant m * 2 ^ (e - 9))"
proof -
  define L where "L = pmfl_from_u16 x"
  have m: "512 \<le> m" "m < 1024"
    unfolding m_def using assms(1,3,4) by (rule mant_high)+
  have L: "unat L = 512 * e + l0 m"
    unfolding L_def m_def using assms(1-4) by (rule from_u16_unat_high)
  have le: "l0 m \<le> 512"
    using m by (rule l0_le)
  show ?thesis
  proof (cases "unat L < 8192")
    case True
    then have "unat (pmfl_to_u16 L) = antilog (unat L div 512) (unat L mod 512)"
      by (rule to_u16_unat)
    moreover have "9 \<le> unat L div 512"
      using assms(1) by (simp add: L)
    ultimately have "unat (pmfl_to_u16 L) = expval (unat L mod 512) * 2 ^ (unat L div 512 - 9)"
      by (simp only: antilog_high)
    also have "\<dots> = remant m * 2 ^ (e - 9)"
      unfolding L using m assms(1) by (rule antilog_of_log)
    finally have r: "unat (pmfl_to_u16 L) = remant m * 2 ^ (e - 9)" .
    have "\<not> (e = 15 \<and> l0 m = 512)"
      using True by (auto simp add: L)
    with r show ?thesis
      unfolding L_def by auto
  next
    case False
    with L le assms(2) have e: "e = 15" and c: "l0 m = 512"
      by simp_all
    have "unat L = unat (0x2000 :: 16 word)"
      by (simp add: L e c)
    then have "L = 0x2000"
      by (simp only: word_unat_eq_iff)
    then have "pmfl_to_u16 L = 0xffff"
      by (simp add: pmfl_to_u16_def word_sle_eq word_sless_alt)
    with e c show ?thesis
      by (simp add: L_def)
  qed
qed

lemma rt16_low:
  fixes x :: "16 word"
  assumes "e \<le> 8" "2 ^ e \<le> unat x" "unat x < 2 ^ (e + 1)"
  defines "m \<equiv> unat x * 2 ^ (9 - e)"
  shows "unat (pmfl_to_u16 (pmfl_from_u16 x)) = (expval (l0 m) + 1) div 2 ^ (9 - e)"
    and "l0 m < 512" and "m \<le> expval (l0 m) + 1" and "expval (l0 m) \<le> m + 1"
proof -
  define L where "L = pmfl_from_u16 x"
  have m: "512 \<le> m" "m < 1024"
    unfolding m_def using assms(1-3) by (rule mant_low)+
  have "9 - e = Suc (8 - e)"
    using assms(1) by simp
  then have "even m"
    by (simp add: m_def)
  with mant_table [OF m] show small: "l0 m < 512"
    and "m \<le> expval (l0 m) + 1" and "expval (l0 m) \<le> m + 1"
    by auto
  have e15: "e \<le> 15"
    using assms(1) by simp
  have "unat L = 512 * e + l0 (mant e (unat x))"
    unfolding L_def using e15 assms(2,3) by (rule from_u16_unat)
  then have L: "unat L = 512 * e + l0 m"
    using assms(1) by (simp add: mant_def m_def)
  have dm: "unat L div 512 = e" "unat L mod 512 = l0 m"
    unfolding L using small by (rule divmod_split)+
  have "unat L < 8192"
    using small assms(1) by (simp add: L)
  then have "unat (pmfl_to_u16 L) = antilog (unat L div 512) (unat L mod 512)"
    by (rule to_u16_unat)
  then have "unat (pmfl_to_u16 L) = antilog e (l0 m)"
    by (simp only: dm)
  then have "unat (pmfl_to_u16 L) = (expval (l0 m) + 1) div 2 ^ (9 - e)"
    using assms(1) by (simp add: antilog_def)
  then show "unat (pmfl_to_u16 (pmfl_from_u16 x)) = (expval (l0 m) + 1) div 2 ^ (9 - e)"
    by (simp only: L_def)
qed

lemma exponent_bound:
  fixes x :: "'a::len word"
  assumes "2 ^ e \<le> unat x"
  shows "e < LENGTH('a)"
proof -
  have "(2::nat) ^ e < 2 ^ LENGTH('a)"
    using assms unsigned_less [of x, where ?'a = nat] by (rule le_less_trans)
  then show ?thesis
    by simp
qed

lemma scaled_bound:
  fixes r n d :: nat
  assumes "r \<le> n + d" "n \<le> r + d" "256 * d \<le> B"
  shows "256 * \<bar>int r - int n\<bar> \<le> int B"
proof -
  have "\<bar>int r - int n\<bar> \<le> int d"
    using assms(1,2) by (rule abs_diff_le)
  then have "256 * \<bar>int r - int n\<bar> \<le> 256 * int d"
    by simp
  also have "\<dots> = int (256 * d)"
    by simp
  also have "\<dots> \<le> int B"
    using assms(3) by (simp only: of_nat_le_iff)
  finally show ?thesis .
qed

lemma rt16_error:
  fixes x :: "16 word"
  assumes "2 ^ e \<le> unat x" "unat x < 2 ^ (e + 1)"
  shows "256 * \<bar>int (unat (pmfl_to_u16 (pmfl_from_u16 x))) - int (unat x)\<bar> \<le> 2 ^ e"
proof -
  define n where "n = unat x"
  define r where "r = unat (pmfl_to_u16 (pmfl_from_u16 x))"
  have e15: "e \<le> 15"
    using exponent_bound [OF assms(1)] by simp
  have goal: "256 * \<bar>int r - int n\<bar> \<le> int (2 ^ e)"
  proof (cases "e \<le> 8")
    case True
    define Q :: nat where "Q = 2 ^ (9 - e)"
    define V where "V = expval (l0 (n * Q))"
    have r: "r = (V + 1) div Q" and v: "n * Q \<le> V + 1" "V \<le> n * Q + 1"
      unfolding r_def V_def Q_def n_def using rt16_low [OF True assms] by simp_all
    define j where "j = V + 1 - n * Q"
    have j: "V + 1 = n * Q + j" "j \<le> 2"
      using v by (simp_all add: j_def)
    have Q: "0 < Q"
      by (simp add: Q_def)
    have "(n * Q + j) div Q = n + j div Q"
      using Q by simp
    then have rj: "r = n + j div Q"
      by (simp only: r j(1))
    show ?thesis
    proof (cases "e = 8")
      case True
      then have "Q = 2"
        by (simp add: Q_def)
      with j(2) have "j div Q \<le> 1"
        by simp
      then have "r \<le> n + 1" "n \<le> r + 1"
        by (simp_all add: rj)
      moreover have "256 * (1::nat) \<le> 2 ^ e"
        using True by simp
      ultimately show ?thesis
        by (rule scaled_bound)
    next
      case False
      with \<open>e \<le> 8\<close> have "2 \<le> 9 - e"
        by simp
      then have "(2::nat) ^ 2 \<le> 2 ^ (9 - e)"
        by (intro power_increasing) simp_all
      then have "4 \<le> Q"
        by (simp add: Q_def)
      with j(2) have "j div Q = 0"
        by simp
      then have "r = n"
        by (simp add: rj)
      then show ?thesis
        by simp
    qed
  next
    case False
    then have e9: "9 \<le> e"
      by simp
    define P :: nat where "P = 2 ^ (e - 9)"
    define m where "m = n div P"
    have P: "0 < P"
      by (simp add: P_def)
    have m: "512 \<le> m" "m < 1024"
      unfolding m_def P_def n_def using e9 assms by (rule mant_high)+
    have n: "n = m * P + n mod P"
      by (simp add: m_def)
    have low: "n mod P < P"
      using P by simp
    have pw: "(2::nat) ^ e = 512 * P"
      unfolding P_def using e9 by (rule pow_high)
    have r: "r = (if e = 15 \<and> l0 m = 512 then 65535 else remant m * P)"
      unfolding r_def m_def P_def n_def using rt16_high [OF e9 e15 assms] .
    show ?thesis
    proof (cases "e = 15 \<and> l0 m = 512")
      case True
      with mant_table [OF m] have "m = 1023"
        by simp
      moreover from True have "P = 64"
        by (simp add: P_def)
      ultimately have "65472 \<le> n"
        using n by simp
      moreover have "n < 65536"
        using unsigned_less [of x, where ?'a = nat] by (simp add: n_def)
      moreover have "r = 65535"
        using True by (simp add: r)
      ultimately have "r \<le> n + 63" "n \<le> r + 63"
        by simp_all
      moreover have "256 * (63::nat) \<le> 2 ^ e"
        using True by simp
      ultimately show ?thesis
        by (rule scaled_bound)
    next
      case False
      then have r': "r = remant m * P"
        unfolding r by (simp only: if_False)
      have "remant m * P \<le> n + P" "n < remant m * P + 2 * P"
        using n low remant_bounds(1,2) [OF m] by (rule rebuilt_close)+
      then have "r \<le> n + 2 * P" "n \<le> r + 2 * P"
        by (simp_all add: r')
      moreover have "256 * (2 * P) \<le> 2 ^ e"
        by (simp add: pw)
      ultimately show ?thesis
        by (rule scaled_bound)
    qed
  qed
  then show ?thesis
    by (simp add: r_def n_def)
qed

subsection \<open>Round trip through 32 bits\<close>

lemma rt32_core:
  fixes L w :: "16 word"
  assumes "unat L = unat (pmfl_from_u16 w) + 512 * c"
    and "2 ^ ew \<le> unat w" "unat w < 2 ^ (ew + 1)" "8 \<le> ew" "c = 8 \<or> c = 16"
  defines "m \<equiv> mant ew (unat w)"
  shows "unat (pmfl_to_u32 L) =
    (if ew + c = 31 \<and> l0 m = 512 then 4294967295 else remant m * 2 ^ (ew + c - 9))"
proof -
  have ew: "ew \<le> 15"
    using exponent_bound [OF assms(2)] by simp
  have m: "512 \<le> m" "m < 1024"
    unfolding m_def using assms(2,3) by (rule mant_bounds)+
  have le: "l0 m \<le> 512"
    using m by (rule l0_le)
  have "unat (pmfl_from_u16 w) = 512 * ew + l0 m"
    unfolding m_def using ew assms(2,3) by (rule from_u16_unat)
  then have L: "unat L = 512 * (ew + c) + l0 m"
    by (simp add: assms(1) algebra_simps)
  have E: "16 \<le> ew + c" "ew + c \<le> 31"
    using assms(4,5) ew by auto
  show ?thesis
  proof (cases "unat L < 16384")
    case True
    have "8192 \<le> unat L"
      using E(1) by (simp add: L)
    then have "unat (pmfl_to_u32 L) = expval (unat L mod 512) * 2 ^ (unat L div 512 - 9)"
      using True by (rule to_u32_high)
    also have "\<dots> = remant m * 2 ^ (ew + c - 9)"
      unfolding L using m E(1) by (intro antilog_of_log) simp_all
    finally have r: "unat (pmfl_to_u32 L) = remant m * 2 ^ (ew + c - 9)" .
    have "\<not> (ew + c = 31 \<and> l0 m = 512)"
      using True by (auto simp add: L)
    with r show ?thesis
      by auto
  next
    case False
    with L le E(2) have e: "ew + c = 31" and c: "l0 m = 512"
      by simp_all
    have "unat L = unat (0x4000 :: 16 word)"
      by (simp add: L e c)
    then have "L = 0x4000"
      by (simp only: word_unat_eq_iff)
    then have "pmfl_to_u32 L = 0xffffffff"
      by (simp add: pmfl_to_u32_def word_sle_eq word_sless_alt)
    with e c show ?thesis
      by simp
  qed
qed

lemma div_exponent:
  fixes n e c :: nat
  assumes "2 ^ e \<le> n" "n < 2 ^ (e + 1)" "c \<le> e"
  shows "2 ^ (e - c) \<le> n div 2 ^ c" and "n div 2 ^ c < 2 ^ (e - c + 1)"
proof -
  have a: "(2::nat) ^ e = 2 ^ (e - c) * 2 ^ c"
    using assms(3) by (simp flip: power_add)
  have b: "(2::nat) ^ (e + 1) = 2 ^ (e - c + 1) * 2 ^ c"
    using assms(3) by (simp flip: power_add)
  have "2 ^ (e - c) * 2 ^ c \<le> n"
    using assms(1) by (simp only: a)
  then show "2 ^ (e - c) \<le> n div 2 ^ c"
    by (simp add: less_eq_div_iff_mult_less_eq)
  have "n < 2 ^ (e - c + 1) * 2 ^ c"
    using assms(2) by (simp only: b)
  then show "n div 2 ^ c < 2 ^ (e - c + 1)"
    by (simp add: less_mult_imp_div_less)
qed

lemma rt_err_even:
  fixes n m W P low r :: nat
  assumes "n = m * P + low" "low < 2 * P" "W \<le> m + 1" "255 * (m + 2) \<le> 256 * W"
    and "r = W * P" "512 * P \<le> n"
  shows "256 * \<bar>int r - int n\<bar> \<le> int n"
proof -
  have "W * P \<le> (m + 1) * P"
    using assms(3) by (rule mult_le_mono1)
  then have up: "r \<le> n + P"
    by (simp add: assms(1,5) algebra_simps)
  have "255 * (m + 2) * P \<le> 256 * W * P"
    using assms(4) by (rule mult_le_mono1)
  moreover have "255 * n \<le> 255 * ((m + 2) * P)"
    using assms(2) by (simp add: assms(1) algebra_simps)
  ultimately have lo: "255 * n \<le> 256 * r"
    by (simp add: assms(5) algebra_simps)
  show ?thesis
    using up lo assms(6) by (simp add: abs_if algebra_simps)
qed

lemma rt32_upper:
  fixes x :: "32 word" and w :: "16 word"
  assumes "unat (pmfl_from_u32 x) = unat (pmfl_from_u16 w) + 512 * c"
    and "unat w = unat x div 2 ^ c" "c = 8 \<or> c = 16" "2 ^ (c + 8) \<le> unat x"
    and "2 ^ e \<le> unat x" "unat x < 2 ^ (e + 1)"
  shows "256 * \<bar>int (unat (pmfl_to_u32 (pmfl_from_u32 x))) - int (unat x)\<bar> \<le> int (unat x)"
    and "e \<noteq> 16 \<Longrightarrow> e \<noteq> 24 \<Longrightarrow>
      256 * \<bar>int (unat (pmfl_to_u32 (pmfl_from_u32 x))) - int (unat x)\<bar> \<le> 2 ^ e"
proof -
  define n where "n = unat x"
  define r where "r = unat (pmfl_to_u32 (pmfl_from_u32 x))"
  define ew where "ew = e - c"
  define P :: nat where "P = 2 ^ (e - 9)"
  define m where "m = mant ew (unat w)"
  have "(2::nat) ^ (c + 8) < 2 ^ (e + 1)"
    using assms(4,6) by (rule le_less_trans)
  then have "c + 8 < e + 1"
    by (rule power_less_imp_less_exp [rotated]) simp
  then have ce: "c + 8 \<le> e"
    by simp
  then have ew8: "8 \<le> ew" and e: "ew + c = e" and ec: "c \<le> e"
    by (simp_all add: ew_def)
  have e31: "e \<le> 31"
    using exponent_bound [OF assms(5)] by simp
  have wb: "2 ^ ew \<le> unat w" "unat w < 2 ^ (ew + 1)"
    unfolding ew_def assms(2) using assms(5,6) ec by (rule div_exponent)+
  have m: "512 \<le> m" "m < 1024"
    unfolding m_def using wb by (rule mant_bounds)+
  have r: "r = (if e = 31 \<and> l0 m = 512 then 4294967295 else remant m * P)"
    unfolding r_def m_def P_def e [symmetric]
    using assms(1) wb ew8 assms(3) by (rule rt32_core)
  have pw: "(2::nat) ^ e = 512 * P"
    unfolding P_def using ce assms(3) by (intro pow_high) auto
  have n512: "512 * P \<le> n"
    using assms(5) by (simp only: pw n_def)
  have P: "0 < P"
    by (simp add: P_def)
  have both: "256 * \<bar>int r - int n\<bar> \<le> int n \<and>
      (e \<noteq> 16 \<and> e \<noteq> 24 \<longrightarrow> 256 * \<bar>int r - int n\<bar> \<le> int (2 ^ e))"
  proof (cases "ew = 8")
    case True
    then have ec: "e = 16 \<or> e = 24"
      using e assms(3) by auto
    have m2: "m = 2 * (n div 2 ^ c)"
      using True by (simp add: m_def mant_def assms(2) n_def)
    have "e - 9 = c - 1" "0 < c"
      using True e assms(3) by auto
    then have P2: "2 ^ c = 2 * P"
      by (simp add: P_def flip: power_Suc)
    have "n = (n div 2 ^ c) * 2 ^ c + n mod 2 ^ c"
      by (simp only: div_mult_mod_eq)
    then have n: "n = m * P + n mod (2 * P)"
      by (simp add: m2 P2)
    have low: "n mod (2 * P) < 2 * P"
      using P by simp
    have "even m"
      by (simp add: m2)
    then have W: "remant m \<le> m + 1" "255 * (m + 2) \<le> 256 * remant m"
      using remant_bounds [OF m] by simp_all
    have "r = remant m * P"
      using ec by (auto simp add: r)
    with n low W have "256 * \<bar>int r - int n\<bar> \<le> int n"
      using n512 by (intro rt_err_even [of n m P "n mod (2 * P)" "remant m" r]) simp_all
    with ec show ?thesis
      by auto
  next
    case False
    with ew8 have ew9: "9 \<le> ew"
      by simp
    have "e - 9 = c + (ew - 9)"
      using ew9 e by simp
    then have "P = 2 ^ c * 2 ^ (ew - 9)"
      by (simp add: P_def power_add)
    then have "m = n div P"
      using ew9 by (simp add: m_def mant_def assms(2) n_def div_mult2_eq)
    then have n: "n = m * P + n mod P"
      by simp
    have low: "n mod P < P"
      using P by simp
    have "256 * \<bar>int r - int n\<bar> \<le> int (2 ^ e)"
    proof (cases "e = 31 \<and> l0 m = 512")
      case True
      with mant_table [OF m] have "m = 1023"
        by simp
      moreover from True have P22: "P = 4194304"
        by (simp add: P_def)
      ultimately have "4290772992 \<le> n"
        using n by simp
      moreover have "n < 4294967296"
        using unsigned_less [of x, where ?'a = nat] by (simp add: n_def)
      moreover have "r = 4294967295"
        using True by (simp add: r)
      ultimately have "r \<le> n + 4194304" "n \<le> r + 4194304"
        by simp_all
      moreover have "256 * (4194304::nat) \<le> 2 ^ e"
        using True by simp
      ultimately show ?thesis
        by (rule scaled_bound)
    next
      case False
      then have r': "r = remant m * P"
        unfolding r by (simp only: if_False)
      have "remant m * P \<le> n + P" "n < remant m * P + 2 * P"
        using n low remant_bounds(1,2) [OF m] by (rule rebuilt_close)+
      then have "r \<le> n + 2 * P" "n \<le> r + 2 * P"
        by (simp_all add: r')
      moreover have "256 * (2 * P) \<le> 2 ^ e"
        by (simp add: pw)
      ultimately show ?thesis
        by (rule scaled_bound)
    qed
    moreover have "int (2 ^ e) \<le> int n"
      using assms(5) by (simp only: n_def of_nat_le_iff)
    ultimately show ?thesis
      by linarith
  qed
  from both show "256 * \<bar>int (unat (pmfl_to_u32 (pmfl_from_u32 x))) - int (unat x)\<bar> \<le> int (unat x)"
    by (simp add: r_def n_def)
  from both show "e \<noteq> 16 \<Longrightarrow> e \<noteq> 24 \<Longrightarrow>
      256 * \<bar>int (unat (pmfl_to_u32 (pmfl_from_u32 x))) - int (unat x)\<bar> \<le> 2 ^ e"
    by (simp add: r_def n_def)
qed

lemma rt32_low:
  fixes x :: "32 word"
  assumes "unat x < 65536" "2 ^ e \<le> unat x" "unat x < 2 ^ (e + 1)"
  shows "256 * \<bar>int (unat (pmfl_to_u32 (pmfl_from_u32 x))) - int (unat x)\<bar> \<le> 2 ^ e"
proof -
  define y where "y = (ucast x :: 16 word)"
  define L where "L = pmfl_from_u16 y"
  have y: "unat y = unat x"
    unfolding y_def using assms(1) by (rule from_u32_low)
  have L32: "pmfl_from_u32 x = L"
    unfolding L_def y_def using assms(1) by (rule from_u32_low)
  have yb: "2 ^ e \<le> unat y" "unat y < 2 ^ (e + 1)"
    using assms(2,3) by (simp_all only: y)
  have e15: "e \<le> 15"
    using exponent_bound [OF yb(1)] by simp
  define m where "m = mant e (unat y)"
  have m: "512 \<le> m" "m < 1024"
    unfolding m_def using yb by (rule mant_bounds)+
  have Lv: "unat L = 512 * e + l0 m"
    unfolding L_def m_def using e15 yb by (rule from_u16_unat)
  have le: "l0 m \<le> 512"
    using m by (rule l0_le)
  show ?thesis
  proof (cases "unat L < 8192")
    case True
    then have "unat (pmfl_to_u32 L) = unat (pmfl_to_u16 L)"
      by (rule to_u32_low)
    moreover have "256 * \<bar>int (unat (pmfl_to_u16 (pmfl_from_u16 y))) - int (unat y)\<bar> \<le> 2 ^ e"
      using yb by (rule rt16_error)
    ultimately show ?thesis
      by (simp only: L32 L_def y)
  next
    case False
    with Lv le e15 have e: "e = 15" and c: "l0 m = 512"
      by simp_all
    from mant_table [OF m] c have "m = 1023"
      by simp
    then have "unat x div 64 = 1023"
      by (simp add: m_def mant_def e y)
    then have n: "65472 \<le> unat x"
      by simp
    have Lval: "unat L = 8192"
      by (simp add: Lv e c)
    then have "unat (pmfl_to_u32 L) = expval (unat L mod 512) * 2 ^ (unat L div 512 - 9)"
      by (intro to_u32_high) simp_all
    then have "unat (pmfl_to_u32 L) = 65536"
      by (simp add: Lval expval_0)
    then have r: "unat (pmfl_to_u32 (pmfl_from_u32 x)) = 65536"
      by (simp only: L32)
    have "unat (pmfl_to_u32 (pmfl_from_u32 x)) \<le> unat x + 64"
      "unat x \<le> unat (pmfl_to_u32 (pmfl_from_u32 x)) + 64"
      using n assms(1) by (simp_all add: r)
    moreover have "256 * (64::nat) \<le> 2 ^ e"
      by (simp add: e)
    ultimately show ?thesis
      by (rule scaled_bound [where B = "2 ^ e", simplified])
  qed
qed

lemma rt32_error:
  fixes x :: "32 word"
  assumes "2 ^ e \<le> unat x" "unat x < 2 ^ (e + 1)"
  shows "256 * \<bar>int (unat (pmfl_to_u32 (pmfl_from_u32 x))) - int (unat x)\<bar> \<le> int (unat x)"
    and "e \<noteq> 16 \<Longrightarrow> e \<noteq> 24 \<Longrightarrow>
      256 * \<bar>int (unat (pmfl_to_u32 (pmfl_from_u32 x))) - int (unat x)\<bar> \<le> 2 ^ e"
proof -
  define d where "d = 256 * \<bar>int (unat (pmfl_to_u32 (pmfl_from_u32 x))) - int (unat x)\<bar>"
  have pn: "(2::int) ^ e \<le> int (unat x)"
  proof -
    have "int (2 ^ e) \<le> int (unat x)"
      using assms(1) by (simp only: of_nat_le_iff)
    then show ?thesis by simp
  qed
  have "d \<le> int (unat x) \<and> (e \<noteq> 16 \<and> e \<noteq> 24 \<longrightarrow> d \<le> 2 ^ e)"
  proof -
    consider "unat x < 65536" | "65536 \<le> unat x" "unat x < 16777216" | "16777216 \<le> unat x"
      by linarith
    then show ?thesis
    proof cases
      case 1
      then have "d \<le> 2 ^ e"
        unfolding d_def using assms by (rule rt32_low)
      with pn show ?thesis
        by simp
    next
      case 2
      define w where "w = (ucast (drop_bit 8 x) :: 16 word)"
      have a: "unat (pmfl_from_u32 x) = unat (pmfl_from_u16 w) + 512 * 8"
        and b: "unat w = unat x div 2 ^ 8"
        unfolding w_def using from_u32_mid [OF 2] by simp_all
      have c: "(8::nat) = 8 \<or> (8::nat) = 16" "2 ^ (8 + 8) \<le> unat x"
        using 2 by simp_all
      show ?thesis
        unfolding d_def using rt32_upper [OF a b c assms] by blast
    next
      case 3
      define w where "w = (ucast (drop_bit 16 x) :: 16 word)"
      have a: "unat (pmfl_from_u32 x) = unat (pmfl_from_u16 w) + 512 * 16"
        and b: "unat w = unat x div 2 ^ 16"
        unfolding w_def using from_u32_high [OF 3] by simp_all
      have c: "(16::nat) = 8 \<or> (16::nat) = 16" "2 ^ (16 + 8) \<le> unat x"
        using 3 by simp_all
      show ?thesis
        unfolding d_def using rt32_upper [OF a b c assms] by blast
    qed
  qed
  then show "256 * \<bar>int (unat (pmfl_to_u32 (pmfl_from_u32 x))) - int (unat x)\<bar> \<le> int (unat x)"
    and "e \<noteq> 16 \<Longrightarrow> e \<noteq> 24 \<Longrightarrow>
      256 * \<bar>int (unat (pmfl_to_u32 (pmfl_from_u32 x))) - int (unat x)\<bar> \<le> 2 ^ e"
    by (simp_all add: d_def)
qed

lemma roundtrip_101119: "pmfl_to_u32 (pmfl_from_u32 101119) = 100736"
  by code_simp
section \<open>Properties of the logarithmic fixed point\<close>

subsection \<open>Log-space arithmetic\<close>

text \<open>
  Claim C8. In 16-bit two's-complement arithmetic \<open>pmfl_multiply a b = a + b\<close>,
  \<open>pmfl_divide a b = a - b\<close> and \<open>pmfl_reciprocal a = - a\<close>; dividing a product by
  its second factor gives the first factor back, and the reciprocal of the
  reciprocal is the value itself.
\<close>

theorem pmfl_log_space_identities:
  "pmfl_multiply a b = a + b \<and> pmfl_divide a b = a - b \<and> pmfl_reciprocal a = - a \<and>
   pmfl_divide (pmfl_multiply a b) b = a \<and> pmfl_reciprocal (pmfl_reciprocal a) = a"
  by (simp add: pmfl_multiply_def pmfl_divide_def pmfl_reciprocal_def)

text \<open>
  Claim C6. \<open>pmfl_square\<close> returns \<open>0x7fff\<close> for every \<open>x\<close> from \<open>0x4000\<close> upwards,
  \<open>0x8001\<close> (that is \<open>- 0x7fff\<close>) for every \<open>x\<close> up to \<open>- 0x4000\<close>, and \<open>x + x\<close>,
  which then is twice \<open>x\<close> as a signed number, for every \<open>x\<close> strictly between
  \<open>- 0x4000\<close> and \<open>0x4000\<close>. The extremes of the format are \<open>0x7fff\<close> and
  \<open>- 0x7fff\<close>: \<open>0x8000\<close> is what the conversions return for the input zero, so
  twice \<open>- 0x4000\<close> is outside the format as twice \<open>0x4000\<close> is.
\<close>

theorem pmfl_square_cases:
  "(0x4000 \<le>s x \<longrightarrow> pmfl_square x = 0x7fff) \<and>
   (x \<le>s - 0x4000 \<longrightarrow> pmfl_square x = 0x8001) \<and>
   (- 0x4000 <s x \<and> x <s 0x4000 \<longrightarrow>
      pmfl_square x = x + x \<and> sint (pmfl_square x) = 2 * sint x)"
proof -
  have neg: "x \<le>s - 0x4000 \<Longrightarrow> \<not> 0x4000 \<le>s x"
    by (simp add: word_sle_eq)
  have mid: "sint (x + x) = 2 * sint x" if "- 0x4000 <s x" "x <s 0x4000"
  proof -
    from that have "- 16384 < sint x" "sint x < 16384"
      by (simp_all add: word_sless_alt)
    then have "signed_take_bit 15 (sint x + sint x) = sint x + sint x"
      by (simp add: signed_take_bit_int_eq_self)
    then show ?thesis
      by (simp add: sint_word_ariths)
  qed
  show ?thesis
    using neg mid by (auto simp add: pmfl_square_def word_sle_eq word_sless_alt)
qed

theorem pmfl_square_cases_witness:
  "pmfl_square 0x4000 = 0x7fff \<and> pmfl_square 0x7fff = 0x7fff \<and>
   pmfl_square (- 0x4000) = 0x8001 \<and> pmfl_square 0x8000 = 0x8001 \<and>
   pmfl_square 0x1234 = 0x2468 \<and> sint (pmfl_square (- 0x3fff)) = - 0x7ffe"
  using pmfl_square_cases [of "0x4000"] pmfl_square_cases [of "0x7fff"]
    pmfl_square_cases [of "- 0x4000"] pmfl_square_cases [of "0x8000"]
    pmfl_square_cases [of "0x1234"] pmfl_square_cases [of "- 0x3fff"]
  by (simp add: word_sle_eq word_sless_alt)

subsection \<open>Saturation of the conversions to integers\<close>

text \<open>
  Claim C4. \<open>pmfl_to_u16 x\<close> is \<open>0\<close> for every negative \<open>x\<close> and \<open>0xffff\<close> for every
  \<open>x\<close> from \<open>0x2000\<close> upwards; \<open>pmfl_to_u32 x\<close> is \<open>0\<close> for every negative \<open>x\<close> and
  \<open>0xffffffff\<close> for every \<open>x\<close> from \<open>0x4000\<close> upwards.
\<close>

theorem pmfl_to_saturation:
  "(x <s 0 \<longrightarrow> pmfl_to_u16 x = 0) \<and>
   (0x2000 \<le>s x \<longrightarrow> pmfl_to_u16 x = 0xffff) \<and>
   (x <s 0 \<longrightarrow> pmfl_to_u32 x = 0) \<and>
   (0x4000 \<le>s x \<longrightarrow> pmfl_to_u32 x = 0xffffffff)"
proof -
  have a: "0x2000 \<le>s x \<Longrightarrow> \<not> x <s 0"
    by (simp add: word_sle_eq word_sless_alt)
  have b: "0x4000 \<le>s x \<Longrightarrow> \<not> x <s 0"
    by (simp add: word_sle_eq word_sless_alt)
  show ?thesis
    by (simp add: pmfl_to_u16_def pmfl_to_u32_def a b)
qed

theorem pmfl_to_saturation_witness:
  "pmfl_to_u16 (- 1) = 0 \<and> pmfl_to_u16 0x2000 = 0xffff \<and> pmfl_to_u16 0x7fff = 0xffff \<and>
   pmfl_to_u32 0x8000 = 0 \<and> pmfl_to_u32 0x4000 = 0xffffffff"
  using pmfl_to_saturation [of "- 1"] pmfl_to_saturation [of "0x2000"]
    pmfl_to_saturation [of "0x7fff"]  pmfl_to_saturation [of "0x8000"] pmfl_to_saturation [of "0x4000"]
  by (simp add: word_sle_eq word_sless_alt)

subsection \<open>The sentinel for zero\<close>

text \<open>
  Claim C7. For an input of 8, 16 or 32 bits, \<open>pmfl_from\<close> returns the bit pattern
  \<open>0x8000\<close> exactly when the input is zero. For a nonzero input the result is an
  ordinary logarithm: it lies between \<open>0\<close> and \<open>0x1000\<close>, \<open>0x2000\<close> and \<open>0x4000\<close>
  for the three widths, and so differs from \<open>0x8000\<close>.
\<close>

theorem pmfl_from_zero_sentinel:
  "(pmfl_from_u8 a = 0x8000 \<longleftrightarrow> a = 0) \<and>
   (pmfl_from_u16 b = 0x8000 \<longleftrightarrow> b = 0) \<and>
   (pmfl_from_u32 c = 0x8000 \<longleftrightarrow> c = 0) \<and>
   (a \<noteq> 0 \<longrightarrow> unat (pmfl_from_u8 a) \<le> 0x1000) \<and>
   (b \<noteq> 0 \<longrightarrow> unat (pmfl_from_u16 b) \<le> 0x2000) \<and>
   (c \<noteq> 0 \<longrightarrow> unat (pmfl_from_u32 c) \<le> 0x4000)"
proof -
  have z8: "pmfl_from_u8 0 = 0x8000"
    by (simp add: pmfl_from_u8_def)
  have z16: "pmfl_from_u16 0 = 0x8000"
    by (simp add: pmfl_from_u16_def z8)
  have z32: "pmfl_from_u32 0 = 0x8000"
    by (simp add: pmfl_from_u32_def z16)
  have n8: "pmfl_from_u8 a \<noteq> 0x8000" if "a \<noteq> 0"
    using from_u8_le [OF that] by (intro not_sentinel) simp
  have n16: "pmfl_from_u16 b \<noteq> 0x8000" if "b \<noteq> 0"
    using from_u16_le_2000 [OF that] by (intro not_sentinel) simp
  have n32: "pmfl_from_u32 c \<noteq> 0x8000" if "c \<noteq> 0"
    using from_u32_le [OF that] by (intro not_sentinel) simp
  show ?thesis
    using z8 z16 z32 n8 n16 n32 from_u8_le [of a] from_u16_le_2000 [of b] from_u32_le [of c]
    by blast
qed

theorem pmfl_from_zero_sentinel_witness:
  "pmfl_from_u8 0 = 0x8000 \<and> pmfl_from_u16 0 = 0x8000 \<and> pmfl_from_u32 0 = 0x8000 \<and>
   pmfl_from_u8 1 \<noteq> 0x8000 \<and> pmfl_from_u16 0xffff \<noteq> 0x8000 \<and>
   pmfl_from_u32 0xffffffff \<noteq> 0x8000 \<and>
   unat (pmfl_from_u8 1) \<le> 0x1000 \<and> unat (pmfl_from_u16 0xffff) \<le> 0x2000 \<and>
   unat (pmfl_from_u32 0xffffffff) \<le> 0x4000"
  using pmfl_from_zero_sentinel [of 0 0 0] pmfl_from_zero_sentinel [of 1 "0xffff" "0xffffffff"]
  by simp

subsection \<open>Round trip\<close>

text \<open>
  Claim C2, as amended. Let the leading one of \<open>x\<close> be at position \<open>e\<close>, so that one
  unit in the last place of the 8-bit mantissa of \<open>x\<close> is \<open>2 ^ (e - 8)\<close>. For every
  16-bit \<open>x \<ge> 1\<close> the value \<open>pmfl_to_u16 (pmfl_from_u16 x)\<close> differs from \<open>x\<close> by at
  most one such unit, and so by at most \<open>x / 256\<close>. For every 32-bit \<open>y \<ge> 1\<close> the
  value \<open>pmfl_to_u32 (pmfl_from_u32 y)\<close> differs from \<open>y\<close> by at most \<open>y / 256\<close>, a
  relative error of at most 0.39 per cent, and by at most one unit in the last
  place unless the leading one of \<open>y\<close> is at position 16 or 24.
\<close>

theorem pmfl_roundtrip_error:
  fixes x :: "16 word" and y :: "32 word"
  shows "(2 ^ e \<le> unat x \<and> unat x < 2 ^ (e + 1) \<longrightarrow>
           256 * \<bar>int (unat (pmfl_to_u16 (pmfl_from_u16 x))) - int (unat x)\<bar> \<le> 2 ^ e \<and>
           256 * \<bar>int (unat (pmfl_to_u16 (pmfl_from_u16 x))) - int (unat x)\<bar> \<le> int (unat x)) \<and>
         (2 ^ k \<le> unat y \<and> unat y < 2 ^ (k + 1) \<longrightarrow>
           256 * \<bar>int (unat (pmfl_to_u32 (pmfl_from_u32 y))) - int (unat y)\<bar> \<le> int (unat y) \<and>
           (k \<noteq> 16 \<and> k \<noteq> 24 \<longrightarrow>
             256 * \<bar>int (unat (pmfl_to_u32 (pmfl_from_u32 y))) - int (unat y)\<bar> \<le> 2 ^ k))"
proof -
  have a: "256 * \<bar>int (unat (pmfl_to_u16 (pmfl_from_u16 x))) - int (unat x)\<bar> \<le> int (unat x)"
    if h: "2 ^ e \<le> unat x" "unat x < 2 ^ (e + 1)"
  proof -
    have "int (2 ^ e) \<le> int (unat x)"
      using h(1) by (simp only: of_nat_le_iff)
    with rt16_error [OF h] show ?thesis
      by simp
  qed
  show ?thesis
    using rt16_error [of e x] a rt32_error [of k y] by blast
qed

theorem pmfl_roundtrip_error_witness:
  "256 * \<bar>int (unat (pmfl_to_u16 (pmfl_from_u16 1000))) - 1000\<bar> \<le> 512 \<and>
   256 * \<bar>int (unat (pmfl_to_u32 (pmfl_from_u32 101119))) - 101119\<bar> \<le> 101119 \<and>
   256 * \<bar>int (unat (pmfl_to_u32 (pmfl_from_u32 1000000))) - 1000000\<bar> \<le> 524288"
  using pmfl_roundtrip_error [of 9 1000 16 101119] pmfl_roundtrip_error [of 9 1000 19 1000000]
  by simp

text \<open>
  Claim C2 as stated fails for the 32-bit input \<open>101119\<close>: its leading one is at
  position 16, one unit in the last place of its 8-bit mantissa is \<open>256\<close>, and
  the round trip gives \<open>100736\<close>, which is \<open>383\<close> away.
\<close>

theorem pmfl_roundtrip_u32_counterexample:
  "(2::nat) ^ 16 \<le> unat (101119 :: 32 word) \<and> unat (101119 :: 32 word) < 2 ^ 17 \<and>
   pmfl_to_u32 (pmfl_from_u32 101119) = 100736 \<and>
   \<not> 256 * \<bar>int (unat (pmfl_to_u32 (pmfl_from_u32 101119))) - int (unat (101119 :: 32 word))\<bar>
       \<le> 2 ^ 16"
  by (simp add: roundtrip_101119)
section \<open>Properties of the ramp generator\<close>

subsection \<open>setAcceleration\<close>

text \<open>
  Claim C5. For \<open>accel \<le> 0\<close> \<open>setAcceleration\<close> returns the error code \<open>- 1\<close> and
  leaves the whole generator, and so the stored acceleration and every ramp
  parameter, as it was. For \<open>accel > 0\<close> it returns \<open>0\<close>, stores \<open>accel\<close> in the
  generator and in the parameter set, and the parameter set is marked dirty.
\<close>

theorem setAcceleration_result:
  "(accel \<le>s 0 \<longrightarrow>
      fst (setAcceleration accel g) = - 1 \<and> fst (setAcceleration accel g) \<noteq> 0 \<and>
      snd (setAcceleration accel g) = g) \<and>
   (0 <s accel \<longrightarrow>
      fst (setAcceleration accel g) = 0 \<and>
      acceleration (snd (setAcceleration accel g)) = accel \<and>
      p_accel (rg_parameters (snd (setAcceleration accel g))) = accel \<and>
      any_change (rg_parameters (snd (setAcceleration accel g))))"
  by (auto simp add: setAcceleration_def params_setAcceleration_def word_sle_eq word_sless_alt)

theorem setAcceleration_result_witness:
  "fst (setAcceleration (- 5) (sample_generator 0)) = - 1 \<and>
   snd (setAcceleration (- 5) (sample_generator 0)) = sample_generator 0 \<and>
   snd (setAcceleration 0 (sample_generator 0)) = sample_generator 0 \<and>
   fst (setAcceleration 250 (sample_generator 0)) = 0 \<and>
   acceleration (snd (setAcceleration 250 (sample_generator 0))) = 250 \<and>
   any_change (rg_parameters (snd (setAcceleration 250 (sample_generator 0))))"
  using setAcceleration_result [of "- 5" "sample_generator 0"]
    setAcceleration_result [of 0 "sample_generator 0"]
    setAcceleration_result [of 250 "sample_generator 0"]
  by (simp add: word_sle_eq word_sless_alt)

subsection \<open>Redundant moves\<close>

text \<open>
  Claim C1. While the ramp generator is active and not in keep-running mode,
  the position that \<open>moveTo\<close> compares the new target with is the applied target
  position; a call of \<open>moveTo\<close> with that position as target leaves the
  write-side state \<open>rg_rw\<close>, in particular \<open>performed_ramp_up_steps\<close>, unchanged,
  whatever \<open>startRampIfNotRunning\<close> does.
\<close>

theorem moveTo_same_target_keeps_ramp:
  assumes "isRampGeneratorActive H g"
    and "\<not> keep_running (parameters (config (rg_ro g)))"
    and "position = curr_pos H queue_end g"
  shows "position = target_pos (parameters (config (rg_ro g))) \<and>
         rg_rw (snd (moveTo H position queue_end g)) = rg_rw g \<and>
         performed_ramp_up_steps (rg_rw (snd (moveTo H position queue_end g))) =
           performed_ramp_up_steps (rg_rw g)"
  using assms by (simp add: moveTo_def curr_pos_def startMove_def Let_def)

theorem moveTo_same_target_keeps_ramp_witness:
  "isRampGeneratorActive sample_header (sample_generator 34) \<and>
   \<not> keep_running (parameters (config (rg_ro (sample_generator 34)))) \<and>
   curr_pos sample_header \<lparr>pos = 40\<rparr> (sample_generator 34) = 1000 \<and>
   performed_ramp_up_steps
     (rg_rw (snd (moveTo sample_header 1000 \<lparr>pos = 40\<rparr> (sample_generator 34)))) = 7"
proof -
  have active: "isRampGeneratorActive sample_header (sample_generator 34)"
    by (simp add: sample_header_def sample_generator_def)
  have positioning: "\<not> keep_running (parameters (config (rg_ro (sample_generator 34))))"
    by (simp add: sample_generator_def sample_parameters_def)
  have compared: "curr_pos sample_header \<lparr>pos = 40\<rparr> (sample_generator 34) = 1000"
    by (simp add: curr_pos_def active positioning)
      (simp add: sample_generator_def sample_parameters_def)
  have "performed_ramp_up_steps (rg_rw (sample_generator 34)) = 7"
    by (simp add: sample_generator_def)
  with moveTo_same_target_keeps_ramp [OF active positioning compared [symmetric]]
  show ?thesis
    using active positioning compared by simp
qed

subsection \<open>advanceTargetPosition outside a positioning ramp\<close>

text \<open>
  Claim C9. When the ramp generator is not active, or \<open>keep_running\<close> is set in
  the applied configuration, \<open>advanceTargetPosition\<close> returns the generator
  unchanged: parameters, read-side state and write-side state are as before.
\<close>

theorem advanceTargetPosition_noop:
  assumes "\<not> isRampGeneratorActive H g \<or> keep_running (parameters (config (rg_ro g)))"
  shows "advanceTargetPosition H delta queue g = g"
  using assms by (auto simp add: advanceTargetPosition_def)

theorem advanceTargetPosition_noop_witness:
  "\<not> isRampGeneratorActive sample_header (sample_generator 0) \<and>
   advanceTargetPosition sample_header 25 \<lparr>pos = 40\<rparr> (sample_generator 0) = sample_generator 0 \<and>
   isRampGeneratorActive sample_header sample_keep_running \<and>
   keep_running (parameters (config (rg_ro sample_keep_running))) \<and>
   advanceTargetPosition sample_header 25 \<lparr>pos = 40\<rparr> sample_keep_running = sample_keep_running"
proof -
  have idle: "\<not> isRampGeneratorActive sample_header (sample_generator 0)"
    by (simp add: sample_header_def sample_generator_def)
  then have "\<not> isRampGeneratorActive sample_header (sample_generator 0) \<or>
      keep_running (parameters (config (rg_ro (sample_generator 0))))"
    by simp
  from advanceTargetPosition_noop [OF this]
  have 1: "advanceTargetPosition sample_header 25 \<lparr>pos = 40\<rparr> (sample_generator 0) =
      sample_generator 0" .
  have active: "isRampGeneratorActive sample_header sample_keep_running"
    by (simp add: sample_header_def sample_keep_running_def sample_generator_def)
  have forever: "keep_running (parameters (config (rg_ro sample_keep_running)))"
    by (simp add: sample_keep_running_def)
  then have "\<not> isRampGeneratorActive sample_header sample_keep_running \<or>
      keep_running (parameters (config (rg_ro sample_keep_running)))"
    by simp
  from advanceTargetPosition_noop [OF this]
  have 2: "advanceTargetPosition sample_header 25 \<lparr>pos = 40\<rparr> sample_keep_running =
      sample_keep_running" .
  from idle 1 active forever 2 show ?thesis
    by blast
qed

subsection \<open>The apply handshake\<close>

text \<open>
  Claim C3. If \<open>apply_flag\<close> is set when \<open>getNextCommand\<close> is entered, the
  handshake, which is the first step of \<open>getNextCommand\<close>, copies the whole
  parameter record into the read-side snapshot (given that
  \<open>update_config\<close>, which runs on the snapshot afterwards, keeps the copied
  parameters), and after \<open>getNextCommand\<close> the flags \<open>apply_flag\<close>,
  \<open>any_change\<close> and \<open>recalc_ramp_steps\<close> of the parameters are all false. If
  \<open>apply_flag\<close> is clear, the handshake leaves the read-side configuration, and
  indeed the whole generator, unchanged. Nothing after the handshake writes to
  the parameters, and the rest of \<open>getNextCommand\<close> sees the generator only as the
  handshake leaves it.
\<close>

theorem getNextCommand_apply_handshake:
  "(apply_flag (rg_parameters g) \<and> (\<forall>c. parameters (update_config H c) = parameters c) \<longrightarrow>
      parameters (config (rg_ro (apply_handshake H g))) = rg_parameters g) \<and>
   (apply_flag (rg_parameters g) \<longrightarrow>
      \<not> apply_flag (rg_parameters (fst (getNextCommand H queue_end cmd g))) \<and>
      \<not> any_change (rg_parameters (fst (getNextCommand H queue_end cmd g))) \<and>
      \<not> recalc_ramp_steps (rg_parameters (fst (getNextCommand H queue_end cmd g)))) \<and>
   (\<not> apply_flag (rg_parameters g) \<longrightarrow>
      config (rg_ro (apply_handshake H g)) = config (rg_ro g) \<and> apply_handshake H g = g) \<and>
   rg_parameters (fst (getNextCommand H queue_end cmd g)) = rg_parameters (apply_handshake H g) \<and>
   getNextCommand H queue_end cmd (apply_handshake H g) = getNextCommand H queue_end cmd g"
proof -
  have again: "apply_handshake H (apply_handshake H g) = apply_handshake H g"
    by (simp add: apply_handshake_def Let_def)
  have run: "getNextCommand H queue_end cmd (apply_handshake H g) = getNextCommand H queue_end cmd g"
    by (simp only: getNextCommand_def again)
  have rest: "rg_parameters (fst (getNextCommand H queue_end cmd g)) =
      rg_parameters (apply_handshake H g)"
    by (simp add: getNextCommand_def Let_def split: prod.splits)
  have flags: "\<not> apply_flag (rg_parameters (apply_handshake H g)) \<and>
      \<not> any_change (rg_parameters (apply_handshake H g)) \<and>
      \<not> recalc_ramp_steps (rg_parameters (apply_handshake H g))"
    if "apply_flag (rg_parameters g)"
    using that by (simp add: apply_handshake_def Let_def)
  have copy: "parameters (config (rg_ro (apply_handshake H g))) = rg_parameters g"
    if "apply_flag (rg_parameters g)" "\<forall>c. parameters (update_config H c) = parameters c"
    using that by (simp add: apply_handshake_def Let_def)
  have frame: "apply_handshake H g = g" if "\<not> apply_flag (rg_parameters g)"
    using that by (simp add: apply_handshake_def)
  show ?thesis
    using run rest flags copy frame by auto
qed

theorem getNextCommand_apply_handshake_witness:
  "apply_flag (rg_parameters sample_pending) \<and>
   (\<forall>c. parameters (update_config sample_header c) = parameters c) \<and>
   parameters (config (rg_ro (apply_handshake sample_header sample_pending))) =
     rg_parameters sample_pending \<and>
   target_pos (parameters (config (rg_ro (apply_handshake sample_header sample_pending)))) = 2000 \<and>
   \<not> any_change (rg_parameters (fst (getNextCommand sample_header \<lparr>pos = 40\<rparr> sample_command sample_pending))) \<and>
   \<not> apply_flag (rg_parameters (sample_generator 34)) \<and>
   config (rg_ro (apply_handshake sample_header (sample_generator 34))) =
     config (rg_ro (sample_generator 34))"
proof -
  have set: "apply_flag (rg_parameters sample_pending)"
    by (simp add: sample_pending_def)
  have upd: "\<forall>c. parameters (update_config sample_header c) = parameters c"
    by (simp add: sample_header_def)
  have clear: "\<not> apply_flag (rg_parameters (sample_generator 34))"
    by (simp add: sample_generator_def sample_parameters_def)
  have target: "target_pos (rg_parameters sample_pending) = 2000"
    by (simp add: sample_pending_def)
  from getNextCommand_apply_handshake [of sample_pending sample_header "\<lparr>pos = 40\<rparr>" sample_command] set upd
  have 1: "parameters (config (rg_ro (apply_handshake sample_header sample_pending))) =
      rg_parameters sample_pending"
    and 2: "\<not> any_change (rg_parameters (fst (getNextCommand sample_header \<lparr>pos = 40\<rparr> sample_command sample_pending)))"
    by blast+
  from getNextCommand_apply_handshake [of "sample_generator 34" sample_header "\<lparr>pos = 40\<rparr>" sample_command] clear
  have 3: "config (rg_ro (apply_handshake sample_header (sample_generator 34))) =
     config (rg_ro (sample_generator 34))"
    by blast
  from 1 target have "target_pos (parameters (config (rg_ro (apply_handshake sample_header sample_pending)))) = 2000"
    by simp
  with set upd clear 1 2 3 show ?thesis
    by blast
qed

subsection \<open>getCurrentAcceleration\<close>

text \<open>
  Claim C10. Let the macros be laid out as flags: the phase flags are disjoint
  from the direction mask, the two directions lie inside the mask, and the two
  phase flags differ, as do the two directions. Then \<open>getCurrentAcceleration\<close>
  is \<open>0\<close> when the ramp state is neither accelerating nor decelerating; it is
  the stored acceleration, positive when that is positive, when accelerating
  and counting up or decelerating and counting down; and it is the negated
  acceleration, negative when the acceleration is positive, when decelerating
  and counting up or accelerating and counting down.
\<close>

theorem getCurrentAcceleration_cases:
  assumes "header_flags_ok H"
  shows "(\<not> ramp_accelerating H (rampState H (rg_rw g)) \<and>
          \<not> ramp_decelerating H (rampState H (rg_rw g)) \<longrightarrow>
            getCurrentAcceleration H g = 0) \<and>
         (ramp_accelerating H (rampState H (rg_rw g)) \<and>
            ramp_counting_up H (rampState H (rg_rw g)) \<or>
          ramp_decelerating H (rampState H (rg_rw g)) \<and>
            ramp_counting_down H (rampState H (rg_rw g)) \<longrightarrow>
            getCurrentAcceleration H g = acceleration g \<and>
            (0 <s acceleration g \<longrightarrow> 0 <s getCurrentAcceleration H g)) \<and>
         (ramp_decelerating H (rampState H (rg_rw g)) \<and>
            ramp_counting_up H (rampState H (rg_rw g)) \<or>
          ramp_accelerating H (rampState H (rg_rw g)) \<and>
            ramp_counting_down H (rampState H (rg_rw g)) \<longrightarrow>
            getCurrentAcceleration H g = - acceleration g \<and>
            (0 <s acceleration g \<longrightarrow> getCurrentAcceleration H g <s 0))"
proof -
  define A where "A = RAMP_STATE_ACCELERATING_FLAG H"
  define D where "D = RAMP_STATE_DECELERATING_FLAG H"
  define M where "M = RAMP_DIRECTION_MASK H"
  define U where "U = RAMP_DIRECTION_COUNT_UP H"
  define N where "N = RAMP_DIRECTION_COUNT_DOWN H"
  define s where "s = rampState H (rg_rw g)"
  define m where "m = s AND (A OR D OR M)"
  from assms have ok: "(A OR D) AND M = 0" "U AND M = U" "N AND M = N" "A \<noteq> D" "U \<noteq> N"
    by (simp_all add: header_flags_ok_def A_def D_def M_def U_def N_def)
  have phase: "m AND (A OR D) = s AND (A OR D)"
    unfolding m_def by (rule bit_eqI) (auto simp add: bit_simps)
  have dir: "m AND M = s AND M"
    unfolding m_def by (rule bit_eqI) (auto simp add: bit_simps)
  have split: "m = (s AND (A OR D)) OR (s AND M)"
    unfolding m_def by (rule bit_eqI) (auto simp add: bit_simps)
  have UM: "U AND (A OR D) = 0"
  proof -
    have "U AND (A OR D) = (U AND M) AND (A OR D)" using ok(2) by simp
    also have "\<dots> = U AND ((A OR D) AND M)" by (simp add: ac_simps)
    finally show ?thesis using ok(1) by simp
  qed
  have NM: "N AND (A OR D) = 0"
  proof -
    have "N AND (A OR D) = (N AND M) AND (A OR D)" using ok(3) by simp
    also have "\<dots> = N AND ((A OR D) AND M)" by (simp add: ac_simps)
    finally show ?thesis using ok(1) by simp
  qed
  have AM: "A AND M = 0" and DM: "D AND M = 0"
    using ok(1) by (simp_all add: bit.conj_disj_distrib2 or_eq_0_iff)
  have lab_phase: "(A OR U) AND (A OR D) = A" "(A OR N) AND (A OR D) = A"
    "(D OR U) AND (A OR D) = D" "(D OR N) AND (A OR D) = D"
    using UM NM by (simp_all add: bit.conj_disj_distrib2)
  have lab_dir: "(A OR U) AND M = U" "(A OR N) AND M = N" "(D OR U) AND M = U" "(D OR N) AND M = N"
    using AM DM ok(2,3) by (simp_all add: bit.conj_disj_distrib2)
  have pos: "0 <s acceleration g \<Longrightarrow> - acceleration g <s 0"
  proof -
    assume "0 <s acceleration g"
    then have p: "0 < sint (acceleration g)" by (simp add: word_sless_alt)
    have "sint (acceleration g) < 2 ^ 31" using sint_lt [of "acceleration g"] by simp
    with p have "signed_take_bit 31 (- sint (acceleration g)) = - sint (acceleration g)"
      by (simp add: signed_take_bit_int_eq_self)
    then have "sint (- acceleration g) = - sint (acceleration g)"
      by (simp add: sint_word_ariths)
    with p show ?thesis by (simp add: word_sless_alt)
  qed
  have res: "getCurrentAcceleration H g =
      (if m = (A OR U) \<or> m = (D OR N) then acceleration g
       else if m = (D OR U) \<or> m = (A OR N) then - acceleration g else 0)"
    by (simp add: getCurrentAcceleration_def Let_def m_def s_def A_def D_def M_def U_def N_def)
  have c1: "getCurrentAcceleration H g = 0" if "s AND (A OR D) \<noteq> A" "s AND (A OR D) \<noteq> D"
  proof -
    from that phase lab_phase have "m \<noteq> (A OR U)" "m \<noteq> (D OR N)" "m \<noteq> (D OR U)" "m \<noteq> (A OR N)"
      by auto
    then show ?thesis by (simp add: res)
  qed
  have c2: "getCurrentAcceleration H g = acceleration g"
    if "s AND (A OR D) = A \<and> s AND M = U \<or> s AND (A OR D) = D \<and> s AND M = N"
    using that split by (auto simp add: res)
  have c3: "getCurrentAcceleration H g = - acceleration g"
    if "s AND (A OR D) = D \<and> s AND M = U \<or> s AND (A OR D) = A \<and> s AND M = N"
  proof -
    from that have m: "m = (D OR U) \<or> m = (A OR N)" using split by auto
    have "m \<noteq> (A OR U)"
      using that phase dir lab_phase lab_dir ok(4,5) by metis
    moreover have "m \<noteq> (D OR N)"
      using that phase dir lab_phase lab_dir ok(4,5) by metis
    ultimately show ?thesis using m by (auto simp add: res)
  qed
  show ?thesis
    using c1 c2 c3 pos
    unfolding ramp_accelerating_def ramp_decelerating_def ramp_counting_up_def
      ramp_counting_down_def A_def [symmetric] D_def [symmetric] M_def [symmetric]
      U_def [symmetric] N_def [symmetric] s_def [symmetric]
    by auto
qed

theorem getCurrentAcceleration_cases_witness:
  "header_flags_ok sample_header \<and>
   getCurrentAcceleration sample_header (sample_generator 0) = 0 \<and>
   getCurrentAcceleration sample_header (sample_generator 33) = 0 \<and>
   getCurrentAcceleration sample_header (sample_generator 34) = 100 \<and>
   getCurrentAcceleration sample_header (sample_generator 68) = 100 \<and>
   getCurrentAcceleration sample_header (sample_generator 36) = - 100 \<and>
   getCurrentAcceleration sample_header (sample_generator 66) = - 100"
proof -
  have ok: "header_flags_ok sample_header"
    by (simp add: header_flags_ok_def sample_header_def)
  have st: "rampState sample_header (rg_rw (sample_generator s)) = s"
    and acc: "acceleration (sample_generator s) = 100" for s
    by (simp_all add: sample_header_def sample_generator_def)
  have fl: "RAMP_STATE_ACCELERATING_FLAG sample_header = 2"
    "RAMP_STATE_DECELERATING_FLAG sample_header = 4"
    "RAMP_DIRECTION_MASK sample_header = 96"
    "RAMP_DIRECTION_COUNT_UP sample_header = 32"
    "RAMP_DIRECTION_COUNT_DOWN sample_header = 64"
    by (simp_all add: sample_header_def)
  note defs = ramp_accelerating_def ramp_decelerating_def ramp_counting_up_def
    ramp_counting_down_def st acc fl
  from getCurrentAcceleration_cases [OF ok, of "sample_generator 0"]
  have 0: "getCurrentAcceleration sample_header (sample_generator 0) = 0"
    by (simp add: defs)
  from getCurrentAcceleration_cases [OF ok, of "sample_generator 33"]
  have 1: "getCurrentAcceleration sample_header (sample_generator 33) = 0"
    by (simp add: defs)
  from getCurrentAcceleration_cases [OF ok, of "sample_generator 34"]
  have 2: "getCurrentAcceleration sample_header (sample_generator 34) = 100"
    by (simp add: defs)
  from getCurrentAcceleration_cases [OF ok, of "sample_generator 68"]
  have 3: "getCurrentAcceleration sample_header (sample_generator 68) = 100"
    by (simp add: defs)
  from getCurrentAcceleration_cases [OF ok, of "sample_generator 36"]
  have 4: "getCurrentAcceleration sample_header (sample_generator 36) = - 100"
    by (simp add: defs)
  from getCurrentAcceleration_cases [OF ok, of "sample_generator 66"]
  have 5: "getCurrentAcceleration sample_header (sample_generator 66) = - 100"
    by (simp add: defs)
  from ok 0 1 2 3 4 5 show ?thesis by blast
qed

end
